theory Spec2Isabelle
  imports Main
begin

section \<open>The core engine of eachain/lru: data model\<close>

text \<open>
  The Go source (package \<^verbatim>\<open>lru\<close>) keeps a hash index \<^verbatim>\<open>map[K]*list.Element\<close> and a
  doubly linked \<^verbatim>\<open>container/list\<close> whose elements carry a \<^verbatim>\<open>*item[K, V]\<close>.
  The model keeps both structures apart, so that their agreement is a theorem and not a
  convention:
  \<^item> a \<^verbatim>\<open>*list.Element\<close> is its address, a natural number;
  \<^item> \<open>elem\<close> is the index, a partial map from keys to addresses;
  \<^item> \<open>items\<close> is the list, as the sequence of its elements' addresses, front first;
  \<^item> \<open>Value\<close> is the field \<^verbatim>\<open>Element.Value\<close> of every element: \<open>None\<close> is Go's
    \<^verbatim>\<open>nil\<close>, \<open>Some it\<close> the item the element points to;
  \<^item> \<open>size_lru\<close> is the field \<^verbatim>\<open>size\<close> (a Go \<^verbatim>\<open>int\<close>; no arithmetic is done on it, so
    it is an unbounded integer here);
  \<^item> \<open>evicted\<close> is the callback field: \<open>None\<close> is \<^verbatim>\<open>nil\<close>, \<open>Some cb\<close> a closure
    \<open>cb\<close>, whose code is given by the parameter \<open>call\<close> of the operations below;
  \<^item> \<open>fresh\<close> is the allocator: the address the next \<^verbatim>\<open>PushFront\<close> returns.
  The zero value of a Go type is the \<open>0\<close> of the type class \<open>zero\<close>.
\<close>

record ('k, 'v) item =
  key :: 'k
  val :: 'v

type_synonym element = nat

record ('k, 'v, 'cb) LRU =
  elem :: "'k \<Rightarrow> element option"
  items :: "element list"
  Value :: "element \<Rightarrow> ('k, 'v) item option"
  size_lru :: int
  evicted :: "'cb option"
  fresh :: element

text \<open>
  A callback is code of the caller: it may read and change the cache it is called from
  (through the cache's own operations) and anything else the caller owns, here a world
  \<open>'w\<close>. A state is the cache together with that world, and \<open>call cb k v s\<close> is the
  state in which the closure \<open>cb\<close>, called with \<open>k\<close> and \<open>v\<close> in state \<open>s\<close>,
  returns; \<open>None\<close> when it does not return. The same convention holds for every operation:
  \<open>None\<close> says that the call does not return normally (it loops forever, or it panics on
  the type assertion of a \<^verbatim>\<open>nil\<close> \<^verbatim>\<open>Element.Value\<close>).
\<close>

type_synonym ('k, 'v, 'cb, 'w) state = "('k, 'v, 'cb) LRU \<times> 'w"

type_synonym ('k, 'v, 'cb, 'w) invoke =
  "'cb \<Rightarrow> 'k \<Rightarrow> 'v \<Rightarrow> ('k, 'v, 'cb, 'w) state \<Rightarrow> ('k, 'v, 'cb, 'w) state option"

subsection \<open>The part of container/list the engine uses\<close>

text \<open>\<^verbatim>\<open>l.PushFront(v)\<close>: a new element with value \<open>v\<close> at the front; returns it.\<close>

definition PushFront ::
  "('k, 'v) item \<Rightarrow> ('k, 'v, 'cb) LRU \<Rightarrow> element \<times> ('k, 'v, 'cb) LRU" where
  "PushFront it lru =
     (let e = fresh lru
      in (e, lru\<lparr>items := e # items lru, Value := (Value lru)(e \<mapsto> it), fresh := Suc e\<rparr>))"

text \<open>\<^verbatim>\<open>l.MoveToFront(e)\<close>: nothing if \<open>e\<close> is not an element of the list.\<close>

definition MoveToFront :: "element \<Rightarrow> ('k, 'v, 'cb) LRU \<Rightarrow> ('k, 'v, 'cb) LRU" where
  "MoveToFront e lru =
     (if e \<in> set (items lru) then lru\<lparr>items := e # remove1 e (items lru)\<rparr> else lru)"

text \<open>\<^verbatim>\<open>l.Remove(e)\<close>: unlinks \<open>e\<close> if it is an element of the list.\<close>

definition list_Remove :: "element \<Rightarrow> ('k, 'v, 'cb) LRU \<Rightarrow> ('k, 'v, 'cb) LRU" where
  "list_Remove e lru = lru\<lparr>items := remove1 e (items lru)\<rparr>"

text \<open>\<^verbatim>\<open>l.Back()\<close>: the last element, \<^verbatim>\<open>nil\<close> for the empty list.\<close>

definition Back :: "('k, 'v, 'cb) LRU \<Rightarrow> element option" where
  "Back lru = (if items lru = [] then None else Some (last (items lru)))"

text \<open>\<^verbatim>\<open>l.Front()\<close>: the first element, \<^verbatim>\<open>nil\<close> for the empty list.\<close>

definition Front :: "('k, 'v, 'cb) LRU \<Rightarrow> element option" where
  "Front lru = (case items lru of [] \<Rightarrow> None | e # _ \<Rightarrow> Some e)"

text \<open>
  \<^verbatim>\<open>e.Next()\<close> and \<^verbatim>\<open>e.Prev()\<close>: the neighbour of \<open>e\<close> in the list; \<^verbatim>\<open>nil\<close> at the end of the
  list, and for an element that has been removed from the list.
\<close>

definition Next :: "element \<Rightarrow> ('k, 'v, 'cb) LRU \<Rightarrow> element option" where
  "Next e lru =
     (case dropWhile (\<lambda>x. x \<noteq> e) (items lru) of _ # n # _ \<Rightarrow> Some n | _ \<Rightarrow> None)"

definition Prev :: "element \<Rightarrow> ('k, 'v, 'cb) LRU \<Rightarrow> element option" where
  "Prev e lru =
     (case dropWhile (\<lambda>x. x \<noteq> e) (rev (items lru)) of _ # p # _ \<Rightarrow> Some p | _ \<Rightarrow> None)"

subsection \<open>Loops\<close>

text \<open>
  Go's \<^verbatim>\<open>for cond { body }\<close> on a state. The loops of \<^verbatim>\<open>Resize\<close> and \<^verbatim>\<open>Clear\<close> need not
  end, so the loop is a partial function: \<open>None\<close> when it runs forever (or its body does not
  return).
\<close>

partial_function (option) for_loop ::
  "('s \<Rightarrow> bool) \<Rightarrow> ('s \<Rightarrow> 's option) \<Rightarrow> 's \<Rightarrow> 's option" where
  "for_loop cond body s =
     (if cond s then Option.bind (body s) (for_loop cond body) else Some s)"

section \<open>The core engine: operations\<close>

text \<open>\<^verbatim>\<open>New(size)\<close>: an empty cache; no callback is registered.\<close>

definition New :: "int \<Rightarrow> ('k, 'v, 'cb) LRU" where
  "New n =
     \<lparr>elem = Map.empty, items = [], Value = Map.empty, size_lru = n, evicted = None,
      fresh = 0\<rparr>"

text \<open>\<^verbatim>\<open>lru.OnEvicted(cb)\<close>.\<close>

definition OnEvicted :: "'cb option \<Rightarrow> ('k, 'v, 'cb) LRU \<Rightarrow> ('k, 'v, 'cb) LRU" where
  "OnEvicted cb lru = lru\<lparr>evicted := cb\<rparr>"

text \<open>\<^verbatim>\<open>lru.Len()\<close>.\<close>

definition Len :: "('k, 'v, 'cb) LRU \<Rightarrow> int" where
  "Len lru = int (length (items lru))"

text \<open>
  The three lines \<^verbatim>\<open>if lru.evicted != nil { lru.evicted(item.key, item.value) }\<close> of
  \<^verbatim>\<open>Remove\<close> and \<^verbatim>\<open>RemoveOldest\<close>.
\<close>

definition notify ::
  "('k, 'v, 'cb, 'w) invoke \<Rightarrow> 'k \<Rightarrow> 'v \<Rightarrow> ('k, 'v, 'cb, 'w) state \<Rightarrow>
   ('k, 'v, 'cb, 'w) state option" where
  "notify call k v s = (case evicted (fst s) of None \<Rightarrow> Some s | Some cb \<Rightarrow> call cb k v s)"

text \<open>
  \<^verbatim>\<open>lru.RemoveOldest()\<close>: the element at the back loses its value, its key leaves the index,
  the element leaves the list, and only then the callback runs. The result is the key and
  the value read before the callback ran.
\<close>

definition RemoveOldest ::
  "('k::zero, 'v::zero, 'cb, 'w) invoke \<Rightarrow> ('k, 'v, 'cb, 'w) state \<Rightarrow>
   (('k \<times> 'v \<times> bool) \<times> ('k, 'v, 'cb, 'w) state) option" where
  "RemoveOldest call s =
     (case s of (lru, w) \<Rightarrow>
        (case Back lru of
           None \<Rightarrow> Some ((0, 0, False), s)
         | Some e \<Rightarrow>
             (case Value lru e of
                None \<Rightarrow> None
              | Some it \<Rightarrow>
                  let lru1 = lru\<lparr>Value := (Value lru)(e := None)\<rparr>;
                      lru2 = lru1\<lparr>elem := (elem lru1)(key it := None)\<rparr>;
                      lru3 = list_Remove e lru2
                  in map_option (Pair (key it, val it, True))
                       (notify call (key it) (val it) (lru3, w)))))"

text \<open>
  \<^verbatim>\<open>lru.Set(key, value)\<close>: a present key is moved to the front and its value overwritten;
  an absent key gets a new element at the front, and one call of \<^verbatim>\<open>RemoveOldest\<close> if
  \<^verbatim>\<open>lru.size > 0 && lru.items.Len() > lru.size\<close>.
\<close>

definition Set ::
  "('k::zero, 'v::zero, 'cb, 'w) invoke \<Rightarrow> 'k \<Rightarrow> 'v \<Rightarrow> ('k, 'v, 'cb, 'w) state \<Rightarrow>
   ('k, 'v, 'cb, 'w) state option" where
  "Set call k v s =
     (case s of (lru, w) \<Rightarrow>
        (case elem lru k of
           Some e \<Rightarrow>
             (let lru1 = MoveToFront e lru
              in case Value lru1 e of
                   None \<Rightarrow> None
                 | Some it \<Rightarrow> Some (lru1\<lparr>Value := (Value lru1)(e \<mapsto> it\<lparr>val := v\<rparr>)\<rparr>, w))
         | None \<Rightarrow>
             (let (e, lru1) = PushFront \<lparr>key = k, val = v\<rparr> lru;
                  lru2 = lru1\<lparr>elem := (elem lru1)(k \<mapsto> e)\<rparr>
              in if size_lru lru2 > 0 \<and> Len lru2 > size_lru lru2
                 then map_option snd (RemoveOldest call (lru2, w))
                 else Some (lru2, w))))"

text \<open>\<^verbatim>\<open>lru.Get(key)\<close>: moves a present key to the front. It calls no callback.\<close>

definition Get ::
  "'k \<Rightarrow> ('k, 'v::zero, 'cb) LRU \<Rightarrow> (('v \<times> bool) \<times> ('k, 'v, 'cb) LRU) option" where
  "Get k lru =
     (case elem lru k of
        Some e \<Rightarrow>
          (let lru1 = MoveToFront e lru
           in case Value lru1 e of
                None \<Rightarrow> None
              | Some it \<Rightarrow> Some ((val it, True), lru1))
      | None \<Rightarrow> Some ((0, False), lru))"

text \<open>\<^verbatim>\<open>lru.Pick(key)\<close>: the lookup of \<^verbatim>\<open>Get\<close> without \<^verbatim>\<open>MoveToFront\<close>.\<close>

definition Pick ::
  "'k \<Rightarrow> ('k, 'v::zero, 'cb) LRU \<Rightarrow> (('v \<times> bool) \<times> ('k, 'v, 'cb) LRU) option" where
  "Pick k lru =
     (case elem lru k of
        Some e \<Rightarrow>
          (case Value lru e of
             None \<Rightarrow> None
           | Some it \<Rightarrow> Some ((val it, True), lru))
      | None \<Rightarrow> Some ((0, False), lru))"

text \<open>
  \<^verbatim>\<open>lru.Remove(key)\<close>: as \<^verbatim>\<open>RemoveOldest\<close>, for the element the index gives for the key.
  The key deleted from the index is \<^verbatim>\<open>item.key\<close>, the key stored in the element.
\<close>

definition Remove ::
  "('k, 'v::zero, 'cb, 'w) invoke \<Rightarrow> 'k \<Rightarrow> ('k, 'v, 'cb, 'w) state \<Rightarrow>
   (('v \<times> bool) \<times> ('k, 'v, 'cb, 'w) state) option" where
  "Remove call k s =
     (case s of (lru, w) \<Rightarrow>
        (case elem lru k of
           Some e \<Rightarrow>
             (case Value lru e of
                None \<Rightarrow> None
              | Some it \<Rightarrow>
                  let lru1 = lru\<lparr>Value := (Value lru)(e := None)\<rparr>;
                      lru2 = lru1\<lparr>elem := (elem lru1)(key it := None)\<rparr>;
                      lru3 = list_Remove e lru2
                  in map_option (Pair (val it, True))
                       (notify call (key it) (val it) (lru3, w)))
         | None \<Rightarrow> Some ((0, False), s)))"

text \<open>
  \<^verbatim>\<open>lru.Resize(size)\<close>: stores the new size, then
  \<^verbatim>\<open>for lru.Len() > size { lru.RemoveOldest(); evicted++ }\<close>. The loop state is the counter
  \<^verbatim>\<open>evicted\<close> and the state; the test compares with the parameter, not with the field.
\<close>

definition Resize ::
  "('k::zero, 'v::zero, 'cb, 'w) invoke \<Rightarrow> int \<Rightarrow> ('k, 'v, 'cb, 'w) state \<Rightarrow>
   (int \<times> ('k, 'v, 'cb, 'w) state) option" where
  "Resize call n s =
     (case s of (lru, w) \<Rightarrow>
        for_loop (\<lambda>(ev, s'). Len (fst s') > n)
          (\<lambda>(ev, s'). map_option (\<lambda>(r, s''). (ev + 1, s'')) (RemoveOldest call s'))
          (0, (lru\<lparr>size_lru := n\<rparr>, w)))"

text \<open>\<^verbatim>\<open>lru.Clear()\<close>: \<^verbatim>\<open>for lru.Len() > 0 { lru.RemoveOldest() }\<close>.\<close>

definition Clear ::
  "('k::zero, 'v::zero, 'cb, 'w) invoke \<Rightarrow> ('k, 'v, 'cb, 'w) state \<Rightarrow>
   ('k, 'v, 'cb, 'w) state option" where
  "Clear call s =
     for_loop (\<lambda>s'. Len (fst s') > 0) (\<lambda>s'. map_option snd (RemoveOldest call s')) s"

subsection \<open>Iteration\<close>

text \<open>
  \<^verbatim>\<open>yield\<close> is code of the caller, as the callback is: called with a key and a value in a
  state, it returns \<^verbatim>\<open>true\<close> or \<^verbatim>\<open>false\<close> and the state it leaves, or does not return.

  \<^verbatim>\<open>lru.All()\<close> and \<^verbatim>\<open>lru.Backward()\<close> run the same loop, from the front with \<^verbatim>\<open>Next\<close> and
  from the back with \<^verbatim>\<open>Prev\<close>:
  \<^verbatim>\<open>for elem := start; elem != nil; elem = next { next = elem.Next(); item := elem.Value.(*item);
  if !yield(item.key, item.value) { return } }\<close>.
  The loop state is the element \<^verbatim>\<open>elem\<close> and the state; the neighbour is read before
  \<^verbatim>\<open>yield\<close> runs, and \<^verbatim>\<open>return\<close> leaves the loop by way of \<^verbatim>\<open>nil\<close>.
\<close>

type_synonym ('k, 'v, 'cb, 'w) yield =
  "'k \<Rightarrow> 'v \<Rightarrow> ('k, 'v, 'cb, 'w) state \<Rightarrow> (bool \<times> ('k, 'v, 'cb, 'w) state) option"

definition walk ::
  "(element \<Rightarrow> ('k, 'v, 'cb) LRU \<Rightarrow> element option) \<Rightarrow> ('k, 'v, 'cb, 'w) yield \<Rightarrow>
   element option \<Rightarrow> ('k, 'v, 'cb, 'w) state \<Rightarrow> ('k, 'v, 'cb, 'w) state option" where
  "walk step yield start s =
     map_option snd
       (for_loop (\<lambda>(cur, s'). cur \<noteq> None)
          (\<lambda>(cur, s').
             case cur of
               None \<Rightarrow> Some (None, s')
             | Some e \<Rightarrow>
                 (let next = step e (fst s')
                  in case Value (fst s') e of
                       None \<Rightarrow> None
                     | Some it \<Rightarrow>
                         map_option (\<lambda>(continue, s''). (if continue then next else None, s''))
                           (yield (key it) (val it) s')))
          (start, s))"

definition All ::
  "('k, 'v, 'cb, 'w) yield \<Rightarrow> ('k, 'v, 'cb, 'w) state \<Rightarrow> ('k, 'v, 'cb, 'w) state option" where
  "All yield s = walk Next yield (Front (fst s)) s"

definition Backward ::
  "('k, 'v, 'cb, 'w) yield \<Rightarrow> ('k, 'v, 'cb, 'w) state \<Rightarrow> ('k, 'v, 'cb, 'w) state option" where
  "Backward yield s = walk Prev yield (Back (fst s)) s"

text \<open>
  The full traversals: \<open>collect\<close> is the \<^verbatim>\<open>yield\<close> that leaves the cache alone, appends
  the pair to a list of the caller's and returns \<^verbatim>\<open>true\<close>; \<open>newest_first\<close> and
  \<open>oldest_first\<close> are what \<^verbatim>\<open>All\<close> and \<^verbatim>\<open>Backward\<close> hand to it.
\<close>

definition collect :: "('k, 'v, 'cb, ('k \<times> 'v) list) yield" where
  "collect k v s = Some (True, (fst s, snd s @ [(k, v)]))"

definition newest_first :: "('k, 'v, 'cb) LRU \<Rightarrow> ('k \<times> 'v) list option" where
  "newest_first lru = map_option snd (All collect (lru, []))"

definition oldest_first :: "('k, 'v, 'cb) LRU \<Rightarrow> ('k \<times> 'v) list option" where
  "oldest_first lru = map_option snd (Backward collect (lru, []))"

section \<open>Callers\<close>

text \<open>
  The record of the callback's calls. \<open>logged call\<close> runs the callback as \<open>call\<close> does and
  appends to a log, which \<open>call\<close> cannot touch, the key and the value the callback was
  called with and the cache in which it was called.
\<close>

definition logged ::
  "('k, 'v, 'cb, 'w) invoke \<Rightarrow>
   ('k, 'v, 'cb, 'w \<times> ('k \<times> 'v \<times> ('k, 'v, 'cb) LRU) list) invoke" where
  "logged call cb k v s =
     (case s of (lru, (w, tr)) \<Rightarrow>
        map_option (\<lambda>(lru', w'). (lru', (w', tr @ [(k, v, lru)]))) (call cb k v (lru, w)))"

text \<open>
  The record of what the callback's calls did. \<open>observed call\<close> runs the callback as \<open>call\<close>
  does and appends to a log, which \<open>call\<close> cannot touch, the key and the value the callback
  was called with, the cache in which it was called and the cache it left when it returned.
  Only the calls the engine itself makes are recorded, not those made by operations that the
  callback's code runs in turn.
\<close>

definition observed ::
  "('k, 'v, 'cb, 'w) invoke \<Rightarrow>
   ('k, 'v, 'cb, 'w \<times> ('k \<times> 'v \<times> ('k, 'v, 'cb) LRU \<times> ('k, 'v, 'cb) LRU) list) invoke" where
  "observed call cb k v s =
     (case s of (lru, (w, tr)) \<Rightarrow>
        map_option (\<lambda>(lru', w'). (lru', (w', tr @ [(k, v, lru, lru')]))) (call cb k v (lru, w)))"

text \<open>
  A caller that calls back: its callback, called with a key and a value, makes a list of
  calls of the cache's own operations (it re-enters the cache). The callbacks these calls
  trigger are run the same way; the fuel bounds how deep callbacks may nest, and \<open>None\<close>
  is also the result when the fuel does not suffice. \<open>exec\<close> makes one call and drops
  what it returns; \<open>run\<close> makes a list of calls, one after the other.
\<close>

datatype ('k, 'v) op =
    OpSet 'k 'v
  | OpGet 'k
  | OpPick 'k
  | OpRemove 'k
  | OpRemoveOldest
  | OpResize int
  | OpClear
  | OpOnEvicted "('k \<Rightarrow> 'v \<Rightarrow> ('k, 'v) op list) option"

type_synonym ('k, 'v) callback = "'k \<Rightarrow> 'v \<Rightarrow> ('k, 'v) op list"

fun exec ::
  "('k::zero, 'v::zero, ('k, 'v) callback, 'w) invoke \<Rightarrow> ('k, 'v) op \<Rightarrow>
   ('k, 'v, ('k, 'v) callback, 'w) state \<Rightarrow> ('k, 'v, ('k, 'v) callback, 'w) state option" where
  "exec call (OpSet k v) s = Set call k v s"
| "exec call (OpGet k) s = map_option (\<lambda>(r, lru'). (lru', snd s)) (Get k (fst s))"
| "exec call (OpPick k) s = map_option (\<lambda>(r, lru'). (lru', snd s)) (Pick k (fst s))"
| "exec call (OpRemove k) s = map_option snd (Remove call k s)"
| "exec call OpRemoveOldest s = map_option snd (RemoveOldest call s)"
| "exec call (OpResize n) s = map_option snd (Resize call n s)"
| "exec call OpClear s = Clear call s"
| "exec call (OpOnEvicted cb) s = Some (OnEvicted cb (fst s), snd s)"

fun run ::
  "('k::zero, 'v::zero, ('k, 'v) callback, 'w) invoke \<Rightarrow> ('k, 'v) op list \<Rightarrow>
   ('k, 'v, ('k, 'v) callback, 'w) state \<Rightarrow> ('k, 'v, ('k, 'v) callback, 'w) state option" where
  "run call [] s = Some s"
| "run call (x # xs) s = Option.bind (exec call x s) (run call xs)"

fun reenter :: "nat \<Rightarrow> ('k::zero, 'v::zero, ('k, 'v) callback, 'w) invoke" where
  "reenter 0 cb k v s = None"
| "reenter (Suc n) cb k v s = run (reenter n) (cb k v) s"

section \<open>Consistency of index and sequence\<close>

text \<open>
  The index and the sequence agree: no element is twice in the list, every key of the index
  leads to an element of the list that carries that key, and every element of the list
  carries an item whose key the index sends to that element. The last part is the
  allocator's: the elements in use are below the next fresh address. A new cache is
  consistent and every operation keeps a cache consistent (lemmas \<open>consistent_New\<close> and
  \<open>run_consistent\<close>), so these are the states the claims are about.
\<close>

definition index_in_sequence :: "('k, 'v, 'cb) LRU \<Rightarrow> bool" where
  "index_in_sequence lru \<longleftrightarrow>
     (\<forall>k e. elem lru k = Some e \<longrightarrow>
        e \<in> set (items lru) \<and> map_option key (Value lru e) = Some k)"

definition sequence_in_index :: "('k, 'v, 'cb) LRU \<Rightarrow> bool" where
  "sequence_in_index lru \<longleftrightarrow>
     (\<forall>e \<in> set (items lru). \<exists>it. Value lru e = Some it \<and> elem lru (key it) = Some e)"

definition consistent :: "('k, 'v, 'cb) LRU \<Rightarrow> bool" where
  "consistent lru \<longleftrightarrow>
     distinct (items lru) \<and> index_in_sequence lru \<and> sequence_in_index lru \<and>
     (\<forall>e \<in> set (items lru). e < fresh lru)"

section \<open>Auxiliary definitions\<close>

text \<open>
  The cache after the lines \<^verbatim>\<open>elem.Value = nil; delete(lru.elem, item.key);
  lru.items.Remove(elem)\<close> of \<^verbatim>\<open>Remove\<close> and \<^verbatim>\<open>RemoveOldest\<close>, for the element \<open>e\<close>
  that carried the item \<open>it\<close>.
\<close>

definition detach :: "element \<Rightarrow> ('k, 'v) item \<Rightarrow> ('k, 'v, 'cb) LRU \<Rightarrow> ('k, 'v, 'cb) LRU" where
  "detach e it lru =
     list_Remove e (lru\<lparr>Value := (Value lru)(e := None), elem := (elem lru)(key it := None)\<rparr>)"

text \<open>
  The cache after \<^verbatim>\<open>lru.elem[key] = lru.items.PushFront(&item{key, value})\<close> of \<^verbatim>\<open>Set\<close>, and
  the cache after its branch for a present key, whose element \<open>e\<close> carried \<open>it\<close>.
\<close>

definition insert_front :: "'k \<Rightarrow> 'v \<Rightarrow> ('k, 'v, 'cb) LRU \<Rightarrow> ('k, 'v, 'cb) LRU" where
  "insert_front k v lru =
     (let (e, lru1) = PushFront \<lparr>key = k, val = v\<rparr> lru in lru1\<lparr>elem := (elem lru1)(k \<mapsto> e)\<rparr>)"

definition overwrite :: "element \<Rightarrow> ('k, 'v) item \<Rightarrow> 'v \<Rightarrow> ('k, 'v, 'cb) LRU \<Rightarrow> ('k, 'v, 'cb) LRU" where
  "overwrite e it v lru =
     (MoveToFront e lru)\<lparr>Value := (Value (MoveToFront e lru))(e \<mapsto> it\<lparr>val := v\<rparr>)\<rparr>"

text \<open>The keys and values of the sequence, front first; read where every element has a value.\<close>

definition entries :: "('k, 'v, 'cb) LRU \<Rightarrow> ('k \<times> 'v) list" where
  "entries lru = map (\<lambda>e. case Value lru e of Some it \<Rightarrow> (key it, val it)) (items lru)"

text \<open>A callback's code keeps the cache consistent.\<close>

definition preserving :: "('k, 'v, 'cb, 'w) invoke \<Rightarrow> bool" where
  "preserving call \<longleftrightarrow>
     (\<forall>cb k v s s'. consistent (fst s) \<longrightarrow> call cb k v s = Some s' \<longrightarrow> consistent (fst s'))"

text \<open>
  An example of a callback that re-enters the cache: called for key 1 with value 0, it sets
  key 1 to 999, and does nothing otherwise.
\<close>

definition bump :: "(int, int) callback" where
  "bump k v = (if k = 1 \<and> v = 0 then [OpSet 1 999] else [])"

text \<open>
  The cache after \<^verbatim>\<open>New(3)\<close>, \<^verbatim>\<open>OnEvicted(bump)\<close>, \<^verbatim>\<open>Set(1, 0)\<close>, \<^verbatim>\<open>Set(2, 1)\<close> and
  \<^verbatim>\<open>Set(3, 2)\<close> (lemma \<open>cache3_reached\<close>): it is full, and key 1 is its oldest.
\<close>

definition cache3 :: "(int, int, (int, int) callback) LRU" where
  "cache3 =
     \<lparr>elem = [1 \<mapsto> 0, 2 \<mapsto> 1, 3 \<mapsto> 2], items = [2, 1, 0],
      Value = [0 \<mapsto> \<lparr>key = 1, val = 0\<rparr>, 1 \<mapsto> \<lparr>key = 2, val = 1\<rparr>,
               2 \<mapsto> \<lparr>key = 3, val = 2\<rparr>],
      size_lru = 3, evicted = Some bump, fresh = 3\<rparr>"

text \<open>
  The key \<open>k\<close> is in neither structure of the cache \<open>c\<close>: the index has no such key, and
  no element of the sequence carries it.
\<close>

definition detached :: "'k \<Rightarrow> ('k, 'v, 'cb) LRU \<Rightarrow> bool" where
  "detached k c \<longleftrightarrow>
     elem c k = None \<and> (\<forall>e \<in> set (items c). map_option key (Value c e) \<noteq> Some k)"

text \<open>
  An example of a callback's code that leaves the cache alone: it adds the value to a sum that
  the caller keeps.
\<close>

definition tally :: "('k, int, 'cb, int) invoke" where
  "tally cb k v s = Some (fst s, snd s + v)"

text \<open>
  Every record of the log satisfies \<open>P\<close>.
\<close>

definition log_ok :: "('k \<Rightarrow> ('k, 'v, 'cb) LRU \<Rightarrow> bool) \<Rightarrow> ('k \<times> 'v \<times> ('k, 'v, 'cb) LRU) list \<Rightarrow> bool" where
  "log_ok P tr \<longleftrightarrow> (\<forall>(k, v, c) \<in> set tr. P k c)"

text \<open>
  The states that \<^verbatim>\<open>Set\<close> reaches from \<^verbatim>\<open>New(N)\<close>: consistent, no callback, capacity \<open>N\<close>,
  at most \<open>N\<close> entries.
\<close>

definition bounded :: "int \<Rightarrow> ('k, 'v, 'cb) LRU \<Rightarrow> bool" where
  "bounded N lru \<longleftrightarrow>
     consistent lru \<and> evicted lru = None \<and> size_lru lru = N \<and> Len lru \<le> N"

section \<open>The concurrent wrapper\<close>

text \<open>
  \<^verbatim>\<open>MutexLRU\<close> (mutex.go) is an engine behind a \<^verbatim>\<open>sync.RWMutex\<close>. The model follows one
  thread of control, the caller's: the mutex is free, held for writing, or held by a number
  of readers. \<^verbatim>\<open>Lock\<close> and \<^verbatim>\<open>RLock\<close> on a mutex that is not available block; no other
  thread is there to release it, so the call does not return (\<open>None\<close>): this is the deadlock
  of a thread that locks a mutex it holds. \<^verbatim>\<open>Unlock\<close> and \<^verbatim>\<open>RUnlock\<close> of a mutex that is not
  held that way are fatal errors of the Go runtime (\<open>None\<close>). What other threads do between
  an \<^verbatim>\<open>Unlock\<close> and the next \<^verbatim>\<open>Lock\<close> is outside this model.
\<close>

datatype rwmutex = Unlocked | Locked | RLocked nat

definition Lock :: "rwmutex \<Rightarrow> rwmutex option" where
  "Lock m = (if m = Unlocked then Some Locked else None)"

definition Unlock :: "rwmutex \<Rightarrow> rwmutex option" where
  "Unlock m = (if m = Locked then Some Unlocked else None)"

definition RLock :: "rwmutex \<Rightarrow> rwmutex option" where
  "RLock m =
     (case m of Unlocked \<Rightarrow> Some (RLocked 1) | RLocked n \<Rightarrow> Some (RLocked (Suc n)) | Locked \<Rightarrow> None)"

definition RUnlock :: "rwmutex \<Rightarrow> rwmutex option" where
  "RUnlock m =
     (case m of
        RLocked n \<Rightarrow> Some (if n \<le> 1 then Unlocked else RLocked (n - 1))
      | _ \<Rightarrow> None)"

text \<open>
  The wrapper's state is the engine \<^verbatim>\<open>m.lru\<close>, the mutex \<^verbatim>\<open>m.mut\<close> and the caller's world.
  For the engine the mutex is part of the world: it never touches it. \<open>on_mut f\<close> applies a
  mutex operation to \<^verbatim>\<open>m.mut\<close>.
\<close>

type_synonym ('k, 'v, 'cb, 'w) mstate = "('k, 'v, 'cb, rwmutex \<times> 'w) state"

definition mut :: "('k, 'v, 'cb, 'w) mstate \<Rightarrow> rwmutex" where
  "mut s = fst (snd s)"

definition on_mut ::
  "(rwmutex \<Rightarrow> rwmutex option) \<Rightarrow> ('k, 'v, 'cb, 'w) mstate \<Rightarrow> ('k, 'v, 'cb, 'w) mstate option" where
  "on_mut f s = map_option (\<lambda>m. (fst s, (m, snd (snd s)))) (f (mut s))"

text \<open>
  The closure that \<^verbatim>\<open>MutexLRU.OnEvicted(cb)\<close> hands to the engine:
  \<^verbatim>\<open>func(k, v) { m.mut.Unlock(); defer m.mut.Lock(); cb(k, v) }\<close>, where \<open>user\<close> is the code
  of the caller's callbacks; and the closure that \<^verbatim>\<open>All\<close> and \<^verbatim>\<open>Backward\<close> hand to the
  engine's iterators: \<^verbatim>\<open>func(key, value) bool { m.mut.Unlock(); defer m.mut.Lock();
  return yield(key, value) }\<close>.
\<close>

definition envelope ::
  "('k, 'v, 'cb, rwmutex \<times> 'w) invoke \<Rightarrow> ('k, 'v, 'cb, rwmutex \<times> 'w) invoke" where
  "envelope user cb k v s =
     Option.bind (on_mut Unlock s) (\<lambda>s1. Option.bind (user cb k v s1) (on_mut Lock))"

definition envelope_yield ::
  "('k, 'v, 'cb, rwmutex \<times> 'w) yield \<Rightarrow> ('k, 'v, 'cb, rwmutex \<times> 'w) yield" where
  "envelope_yield user k v s =
     Option.bind (on_mut Unlock s)
       (\<lambda>s1. Option.bind (user k v s1) (\<lambda>(b, s2). map_option (Pair b) (on_mut Lock s2)))"

text \<open>
  The operations of the wrapper: \<^verbatim>\<open>m.mut.Lock(); defer m.mut.Unlock()\<close> around the engine's
  operation (\<^verbatim>\<open>RLock\<close> and \<^verbatim>\<open>RUnlock\<close> for \<^verbatim>\<open>Pick\<close> and \<^verbatim>\<open>Len\<close>). The engine's field
  \<open>evicted\<close> names the caller's callback \<open>cb\<close>; the closure stored for it is
  \<open>envelope user cb\<close>, so the wrapper runs the engine with \<open>envelope user\<close> as the code of
  callbacks. \<open>M_OnEvicted\<close> takes a callback that is not \<^verbatim>\<open>nil\<close>.
\<close>

definition NewWithMutex :: "int \<Rightarrow> 'w \<Rightarrow> ('k, 'v, 'cb, 'w) mstate" where
  "NewWithMutex n w = (New n, (Unlocked, w))"

definition M_OnEvicted ::
  "'cb \<Rightarrow> ('k, 'v, 'cb, 'w) mstate \<Rightarrow> ('k, 'v, 'cb, 'w) mstate option" where
  "M_OnEvicted cb s =
     Option.bind (on_mut Lock s) (\<lambda>s1. on_mut Unlock (OnEvicted (Some cb) (fst s1), snd s1))"

definition M_Set ::
  "('k::zero, 'v::zero, 'cb, rwmutex \<times> 'w) invoke \<Rightarrow> 'k \<Rightarrow> 'v \<Rightarrow>
   ('k, 'v, 'cb, 'w) mstate \<Rightarrow> ('k, 'v, 'cb, 'w) mstate option" where
  "M_Set user k v s =
     Option.bind (on_mut Lock s)
       (\<lambda>s1. Option.bind (Set (envelope user) k v s1) (on_mut Unlock))"

definition M_Get ::
  "'k \<Rightarrow> ('k, 'v::zero, 'cb, 'w) mstate \<Rightarrow> (('v \<times> bool) \<times> ('k, 'v, 'cb, 'w) mstate) option" where
  "M_Get k s =
     Option.bind (on_mut Lock s)
       (\<lambda>s1. Option.bind (Get k (fst s1))
          (\<lambda>(r, lru'). map_option (Pair r) (on_mut Unlock (lru', snd s1))))"

definition M_Pick ::
  "'k \<Rightarrow> ('k, 'v::zero, 'cb, 'w) mstate \<Rightarrow> (('v \<times> bool) \<times> ('k, 'v, 'cb, 'w) mstate) option" where
  "M_Pick k s =
     Option.bind (on_mut RLock s)
       (\<lambda>s1. Option.bind (Pick k (fst s1))
          (\<lambda>(r, lru'). map_option (Pair r) (on_mut RUnlock (lru', snd s1))))"

definition M_Remove ::
  "('k, 'v::zero, 'cb, rwmutex \<times> 'w) invoke \<Rightarrow> 'k \<Rightarrow> ('k, 'v, 'cb, 'w) mstate \<Rightarrow>
   (('v \<times> bool) \<times> ('k, 'v, 'cb, 'w) mstate) option" where
  "M_Remove user k s =
     Option.bind (on_mut Lock s)
       (\<lambda>s1. Option.bind (Remove (envelope user) k s1)
          (\<lambda>(r, s2). map_option (Pair r) (on_mut Unlock s2)))"

definition M_RemoveOldest ::
  "('k::zero, 'v::zero, 'cb, rwmutex \<times> 'w) invoke \<Rightarrow> ('k, 'v, 'cb, 'w) mstate \<Rightarrow>
   (('k \<times> 'v \<times> bool) \<times> ('k, 'v, 'cb, 'w) mstate) option" where
  "M_RemoveOldest user s =
     Option.bind (on_mut Lock s)
       (\<lambda>s1. Option.bind (RemoveOldest (envelope user) s1)
          (\<lambda>(r, s2). map_option (Pair r) (on_mut Unlock s2)))"

definition M_Resize ::
  "('k::zero, 'v::zero, 'cb, rwmutex \<times> 'w) invoke \<Rightarrow> int \<Rightarrow> ('k, 'v, 'cb, 'w) mstate \<Rightarrow>
   (int \<times> ('k, 'v, 'cb, 'w) mstate) option" where
  "M_Resize user n s =
     Option.bind (on_mut Lock s)
       (\<lambda>s1. Option.bind (Resize (envelope user) n s1)
          (\<lambda>(r, s2). map_option (Pair r) (on_mut Unlock s2)))"

definition M_Len :: "('k, 'v, 'cb, 'w) mstate \<Rightarrow> (int \<times> ('k, 'v, 'cb, 'w) mstate) option" where
  "M_Len s =
     Option.bind (on_mut RLock s) (\<lambda>s1. map_option (Pair (Len (fst s1))) (on_mut RUnlock s1))"

definition M_Clear ::
  "('k::zero, 'v::zero, 'cb, rwmutex \<times> 'w) invoke \<Rightarrow> ('k, 'v, 'cb, 'w) mstate \<Rightarrow>
   ('k, 'v, 'cb, 'w) mstate option" where
  "M_Clear user s =
     Option.bind (on_mut Lock s)
       (\<lambda>s1. Option.bind (Clear (envelope user) s1) (on_mut Unlock))"

definition M_All ::
  "('k, 'v, 'cb, rwmutex \<times> 'w) yield \<Rightarrow> ('k, 'v, 'cb, 'w) mstate \<Rightarrow>
   ('k, 'v, 'cb, 'w) mstate option" where
  "M_All user s =
     Option.bind (on_mut Lock s)
       (\<lambda>s1. Option.bind (All (envelope_yield user) s1) (on_mut Unlock))"

definition M_Backward ::
  "('k, 'v, 'cb, rwmutex \<times> 'w) yield \<Rightarrow> ('k, 'v, 'cb, 'w) mstate \<Rightarrow>
   ('k, 'v, 'cb, 'w) mstate option" where
  "M_Backward user s =
     Option.bind (on_mut Lock s)
       (\<lambda>s1. Option.bind (Backward (envelope_yield user) s1) (on_mut Unlock))"

text \<open>
  A state of the engine seen as a state of the wrapper whose mutex is \<open>m\<close>; and code of
  the caller that, run on the wrapper with the mutex in state \<open>m\<close>, does to cache and world
  what \<open>call\<close> (or \<open>yield\<close>) does on the engine alone, and returns with the mutex in
  state \<open>m\<close>. Nothing is said about what the code does when the mutex is in another state.
\<close>

definition lift :: "rwmutex \<Rightarrow> ('k, 'v, 'cb, 'w) state \<Rightarrow> ('k, 'v, 'cb, 'w) mstate" where
  "lift m s = (fst s, (m, snd s))"

definition agrees ::
  "rwmutex \<Rightarrow> ('k, 'v, 'cb, 'w) invoke \<Rightarrow> ('k, 'v, 'cb, rwmutex \<times> 'w) invoke \<Rightarrow> bool" where
  "agrees m call user \<longleftrightarrow>
     (\<forall>cb k v s. user cb k v (lift m s) = map_option (lift m) (call cb k v s))"

definition agrees_yield ::
  "rwmutex \<Rightarrow> ('k, 'v, 'cb, 'w) yield \<Rightarrow> ('k, 'v, 'cb, rwmutex \<times> 'w) yield \<Rightarrow> bool" where
  "agrees_yield m yield user \<longleftrightarrow>
     (\<forall>k v s. user k v (lift m s) = map_option (\<lambda>(b, s'). (b, lift m s')) (yield k v s))"

text \<open>
  Examples of code that re-enters: a callback that, called for key 1 with value 0, sets key 1
  to 999, on the engine (\<open>c_bump\<close>) and through the wrapper (\<open>m_bump\<close>; the fuel bounds
  how deep callbacks nest), and a \<^verbatim>\<open>yield\<close> that calls \<^verbatim>\<open>Get\<close> for the key it is given.
\<close>

fun c_bump :: "nat \<Rightarrow> (int, int, 'cb, 'w) invoke" where
  "c_bump 0 cb k v s = None"
| "c_bump (Suc n) cb k v s = (if k = 1 \<and> v = 0 then Set (c_bump n) 1 999 s else Some s)"

fun m_bump :: "nat \<Rightarrow> (int, int, 'cb, rwmutex \<times> 'w) invoke" where
  "m_bump 0 cb k v s = None"
| "m_bump (Suc n) cb k v s = (if k = 1 \<and> v = 0 then M_Set (m_bump n) 1 999 s else Some s)"

definition c_touch :: "('k, 'v::zero, 'cb, 'w) yield" where
  "c_touch k v s = map_option (\<lambda>(r, lru'). (True, (lru', snd s))) (Get k (fst s))"

definition m_touch :: "('k, 'v::zero, 'cb, rwmutex \<times> 'w) yield" where
  "m_touch k v s = map_option (\<lambda>(r, s'). (True, s')) (M_Get k s)"

section \<open>Loops: invariants and termination\<close>

lemma for_loop_rule_aux:
  "for_loop c b s = Some t \<Longrightarrow>
     (\<forall>s s'. I s \<longrightarrow> c s \<longrightarrow> b s = Some s' \<longrightarrow> I s') \<longrightarrow> I s \<longrightarrow> I t \<and> \<not> c t"
proof (induction rule: for_loop.raw_induct [rotated 1, consumes 1])
  case (1 loop c b s t)
  show ?case
  proof (intro impI)
    assume step: "\<forall>s s'. I s \<longrightarrow> c s \<longrightarrow> b s = Some s' \<longrightarrow> I s'" and i: "I s"
    show "I t \<and> \<not> c t"
    proof (cases "c s")
      case True
      with 1(2) obtain s' where s': "b s = Some s'" "loop c b s' = Some t"
        by (auto simp: bind_eq_Some_conv)
      from step i True s'(1) have "I s'" by blast
      with 1(1)[OF s'(2)] step show ?thesis by blast
    next
      case False
      with 1(2) i show ?thesis by simp
    qed
  qed
qed

lemma for_loop_rule:
  assumes "for_loop cond body s = Some t" and "I s"
    and "\<And>s s'. I s \<Longrightarrow> cond s \<Longrightarrow> body s = Some s' \<Longrightarrow> I s'"
  shows "I t \<and> \<not> cond t"
  using for_loop_rule_aux[OF assms(1), of I] assms(2,3) by blast

lemma for_loop_total:
  assumes "I s"
    and "\<And>s. I s \<Longrightarrow> cond s \<Longrightarrow> \<exists>s'. body s = Some s' \<and> I s' \<and> (m s' :: nat) < m s"
  shows "\<exists>t. for_loop cond body s = Some t"
  using assms(1)
proof (induction "m s" arbitrary: s rule: less_induct)
  case less
  show ?case
  proof (cases "cond s")
    case True
    from assms(2)[OF less(2) True] obtain s' where s': "body s = Some s'" "I s'" "m s' < m s" by blast
    from less(1)[OF s'(3) s'(2)] obtain t where "for_loop cond body s' = Some t" ..
    with True s' show ?thesis by (subst for_loop.simps) simp
  next
    case False
    then show ?thesis by (subst for_loop.simps) simp
  qed
qed

section \<open>The operations keep index and sequence consistent\<close>

lemma Value_MoveToFront: "Value (MoveToFront e lru) = Value lru"
  by (simp add: MoveToFront_def)

lemmas op_defs = Set_def Get_def Pick_def Remove_def RemoveOldest_def Resize_def Clear_def
  OnEvicted_def New_def PushFront_def MoveToFront_def list_Remove_def Back_def Len_def
  notify_def Let_def

lemmas walk_defs = newest_first_def oldest_first_def All_def Backward_def walk_def Front_def
  Next_def Prev_def collect_def for_loop.simps

lemma consistent_New: "consistent (New n)"
  by (simp add: consistent_def index_in_sequence_def sequence_in_index_def New_def)

lemma consistent_MoveToFront: "consistent lru \<Longrightarrow> consistent (MoveToFront e lru)"
  by (auto simp: consistent_def index_in_sequence_def sequence_in_index_def MoveToFront_def)

lemma RemoveOldest_nonempty:
  "items lru \<noteq> [] \<Longrightarrow> Value lru (last (items lru)) = Some it \<Longrightarrow>
   RemoveOldest call (lru, w) =
     map_option (Pair (key it, val it, True))
       (notify call (key it) (val it) (detach (last (items lru)) it lru, w))"
  by (simp add: RemoveOldest_def Back_def detach_def Let_def)

lemma Remove_present:
  "elem lru k = Some e \<Longrightarrow> Value lru e = Some it \<Longrightarrow>
   Remove call k (lru, w) =
     map_option (Pair (val it, True)) (notify call (key it) (val it) (detach e it lru, w))"
  by (simp add: Remove_def detach_def Let_def)

lemma detach_fields:
  "items (detach e it lru) = remove1 e (items lru)"
  "elem (detach e it lru) = (elem lru)(key it := None)"
  "Value (detach e it lru) = (Value lru)(e := None)"
  "size_lru (detach e it lru) = size_lru lru"
  "evicted (detach e it lru) = evicted lru"
  "fresh (detach e it lru) = fresh lru"
  by (simp_all add: detach_def list_Remove_def)

lemma consistent_index:
  "consistent lru \<Longrightarrow> elem lru k = Some e \<Longrightarrow>
   e \<in> set (items lru) \<and> (\<exists>it. Value lru e = Some it \<and> key it = k)"
  by (simp add: consistent_def index_in_sequence_def)

lemma consistent_sequence:
  "consistent lru \<Longrightarrow> e \<in> set (items lru) \<Longrightarrow>
   \<exists>it. Value lru e = Some it \<and> elem lru (key it) = Some e"
  by (simp add: consistent_def sequence_in_index_def)

lemma consistent_distinct: "consistent lru \<Longrightarrow> distinct (items lru)"
  by (simp add: consistent_def)

lemma consistent_fresh: "consistent lru \<Longrightarrow> e \<in> set (items lru) \<Longrightarrow> e < fresh lru"
  by (simp add: consistent_def)

lemma consistentI:
  assumes "distinct (items lru)"
    and "\<And>k e. elem lru k = Some e \<Longrightarrow>
           e \<in> set (items lru) \<and> (\<exists>it. Value lru e = Some it \<and> key it = k)"
    and "\<And>e. e \<in> set (items lru) \<Longrightarrow>
           \<exists>it. Value lru e = Some it \<and> elem lru (key it) = Some e"
    and "\<And>e. e \<in> set (items lru) \<Longrightarrow> e < fresh lru"
  shows "consistent lru"
  using assms by (simp add: consistent_def index_in_sequence_def sequence_in_index_def)

lemma consistent_detach:
  assumes c: "consistent lru" and e: "e \<in> set (items lru)" and v: "Value lru e = Some it"
  shows "consistent (detach e it lru)"
proof (rule consistentI)
  show "distinct (items (detach e it lru))"
    using consistent_distinct[OF c] by (simp add: detach_fields)
next
  fix k e'
  assume "elem (detach e it lru) k = Some e'"
  then have k: "k \<noteq> key it" and el: "elem lru k = Some e'"
    by (auto simp: detach_fields split: if_splits)
  from consistent_index[OF c el] obtain it' where
    it': "e' \<in> set (items lru)" "Value lru e' = Some it'" "key it' = k" by blast
  with k v have "e' \<noteq> e" by auto
  with it' consistent_distinct[OF c]
  show "e' \<in> set (items (detach e it lru)) \<and>
        (\<exists>j. Value (detach e it lru) e' = Some j \<and> key j = k)"
    by (simp add: detach_fields)
next
  fix e'
  assume "e' \<in> set (items (detach e it lru))"
  with consistent_distinct[OF c] have ne: "e' \<noteq> e" and mem: "e' \<in> set (items lru)"
    by (auto simp: detach_fields)
  from consistent_sequence[OF c mem] obtain it' where
    it': "Value lru e' = Some it'" "elem lru (key it') = Some e'" by blast
  from consistent_sequence[OF c e] v have "elem lru (key it) = Some e" by auto
  with it' ne have "key it' \<noteq> key it" by auto
  with it' ne show "\<exists>j. Value (detach e it lru) e' = Some j \<and>
                     elem (detach e it lru) (key j) = Some e'"
    by (simp add: detach_fields)
next
  fix e'
  assume "e' \<in> set (items (detach e it lru))"
  then have "e' \<in> set (items lru)"
    by (auto simp: detach_fields dest: set_remove1_subset[THEN subsetD])
  with consistent_fresh[OF c] show "e' < fresh (detach e it lru)"
    by (simp add: detach_fields)
qed


lemma insert_front_fields:
  "items (insert_front k v lru) = fresh lru # items lru"
  "elem (insert_front k v lru) = (elem lru)(k \<mapsto> fresh lru)"
  "Value (insert_front k v lru) = (Value lru)(fresh lru \<mapsto> \<lparr>key = k, val = v\<rparr>)"
  "size_lru (insert_front k v lru) = size_lru lru"
  "evicted (insert_front k v lru) = evicted lru"
  "fresh (insert_front k v lru) = Suc (fresh lru)"
  by (simp_all add: insert_front_def PushFront_def Let_def)

lemma Set_absent:
  "elem lru k = None \<Longrightarrow>
   Set call k v (lru, w) =
     (if size_lru lru > 0 \<and> Len (insert_front k v lru) > size_lru lru
      then map_option snd (RemoveOldest call (insert_front k v lru, w))
      else Some (insert_front k v lru, w))"
  by (simp add: Set_def insert_front_def PushFront_def Let_def)

lemma Set_present:
  "elem lru k = Some e \<Longrightarrow> Value lru e = Some it \<Longrightarrow>
   Set call k v (lru, w) = Some (overwrite e it v lru, w)"
  by (simp add: Set_def overwrite_def Let_def Value_MoveToFront)

lemma fresh_notin_items: "consistent lru \<Longrightarrow> fresh lru \<notin> set (items lru)"
  using consistent_fresh by fastforce

lemma consistent_insert_front:
  assumes c: "consistent lru" and a: "elem lru k = None"
  shows "consistent (insert_front k v lru)"
proof (rule consistentI)
  show "distinct (items (insert_front k v lru))"
    using consistent_distinct[OF c] fresh_notin_items[OF c] by (simp add: insert_front_fields)
next
  fix k' e'
  assume "elem (insert_front k v lru) k' = Some e'"
  then consider "k' = k" "e' = fresh lru" | "k' \<noteq> k" "elem lru k' = Some e'"
    by (auto simp: insert_front_fields split: if_splits)
  then show "e' \<in> set (items (insert_front k v lru)) \<and>
        (\<exists>j. Value (insert_front k v lru) e' = Some j \<and> key j = k')"
  proof cases
    case 1
    then show ?thesis by (simp add: insert_front_fields)
  next
    case 2
    from consistent_index[OF c 2(2)] fresh_notin_items[OF c]
    show ?thesis by (auto simp: insert_front_fields)
  qed
next
  fix e'
  assume "e' \<in> set (items (insert_front k v lru))"
  then consider "e' = fresh lru" | "e' \<in> set (items lru)"
    by (auto simp: insert_front_fields)
  then show "\<exists>j. Value (insert_front k v lru) e' = Some j \<and>
               elem (insert_front k v lru) (key j) = Some e'"
  proof cases
    case 1
    then show ?thesis by (simp add: insert_front_fields)
  next
    case 2
    from consistent_sequence[OF c 2] obtain j where
      j: "Value lru e' = Some j" "elem lru (key j) = Some e'" by blast
    with a have "key j \<noteq> k" by auto
    with j 2 fresh_notin_items[OF c] show ?thesis by (auto simp: insert_front_fields)
  qed
next
  fix e'
  assume "e' \<in> set (items (insert_front k v lru))"
  with consistent_fresh[OF c] show "e' < fresh (insert_front k v lru)"
    by (auto simp: insert_front_fields less_Suc_eq)
qed

lemma overwrite_fields:
  "items (overwrite e it v lru) = items (MoveToFront e lru)"
  "elem (overwrite e it v lru) = elem lru"
  "Value (overwrite e it v lru) = (Value lru)(e \<mapsto> it\<lparr>val := v\<rparr>)"
  "size_lru (overwrite e it v lru) = size_lru lru"
  "evicted (overwrite e it v lru) = evicted lru"
  "fresh (overwrite e it v lru) = fresh lru"
  by (simp_all add: overwrite_def MoveToFront_def)

lemma items_MoveToFront:
  "items (MoveToFront e lru) = (if e \<in> set (items lru) then e # remove1 e (items lru) else items lru)"
  by (simp add: MoveToFront_def)

lemma consistent_overwrite:
  assumes c: "consistent lru" and v: "Value lru e = Some it"
  shows "consistent (overwrite e it v' lru)"
proof -
  have m: "consistent (MoveToFront e lru)" by (rule consistent_MoveToFront[OF c])
  show ?thesis
  proof (rule consistentI)
    show "distinct (items (overwrite e it v' lru))"
      using consistent_distinct[OF m] by (simp add: overwrite_fields)
  next
    fix k e'
    assume "elem (overwrite e it v' lru) k = Some e'"
    then have "elem (MoveToFront e lru) k = Some e'" by (simp add: overwrite_fields MoveToFront_def)
    from consistent_index[OF m this] v
    show "e' \<in> set (items (overwrite e it v' lru)) \<and>
        (\<exists>j. Value (overwrite e it v' lru) e' = Some j \<and> key j = k)"
      by (auto simp: overwrite_fields Value_MoveToFront)
  next
    fix e'
    assume "e' \<in> set (items (overwrite e it v' lru))"
    then have "e' \<in> set (items (MoveToFront e lru))" by (simp add: overwrite_fields)
    from consistent_sequence[OF m this] v
    show "\<exists>j. Value (overwrite e it v' lru) e' = Some j \<and>
               elem (overwrite e it v' lru) (key j) = Some e'"
      by (auto simp: overwrite_fields Value_MoveToFront MoveToFront_def split: if_splits)
  next
    fix e'
    assume "e' \<in> set (items (overwrite e it v' lru))"
    then have "e' \<in> set (items (MoveToFront e lru))" by (simp add: overwrite_fields)
    from consistent_fresh[OF m this]
    show "e' < fresh (overwrite e it v' lru)"
      by (simp add: overwrite_fields MoveToFront_def split: if_splits)
  qed
qed


lemma preservingD:
  "preserving call \<Longrightarrow> consistent (fst s) \<Longrightarrow> call cb k v s = Some s' \<Longrightarrow> consistent (fst s')"
  unfolding preserving_def by blast

lemma notify_consistent:
  "preserving call \<Longrightarrow> consistent (fst s) \<Longrightarrow> notify call k v s = Some s' \<Longrightarrow>
   consistent (fst s')"
  by (auto simp: notify_def split: option.splits dest: preservingD)

lemma RemoveOldest_consistent:
  assumes p: "preserving call" and c: "consistent (fst s)"
    and r: "RemoveOldest call s = Some (x, s')"
  shows "consistent (fst s')"
proof (cases s)
  case (Pair lru w)
  show ?thesis
  proof (cases "items lru = []")
    case True
    with r c Pair show ?thesis by (simp add: RemoveOldest_def Back_def)
  next
    case False
    then have mem: "last (items lru) \<in> set (items lru)" by simp
    from consistent_sequence[OF _ mem] c Pair obtain it where
      it: "Value lru (last (items lru)) = Some it" by auto
    from r Pair obtain s'' where
      n: "notify call (key it) (val it) (detach (last (items lru)) it lru, w) = Some s'"
      by (auto simp: RemoveOldest_nonempty[OF False it])
    from c Pair have "consistent (detach (last (items lru)) it lru)"
      by (simp add: consistent_detach[OF _ mem it])
    with notify_consistent[OF p _ n] show ?thesis by simp
  qed
qed

lemma Remove_consistent:
  assumes p: "preserving call" and c: "consistent (fst s)"
    and r: "Remove call k s = Some (x, s')"
  shows "consistent (fst s')"
proof (cases s)
  case (Pair lru w)
  show ?thesis
  proof (cases "elem lru k")
    case None
    with r c Pair show ?thesis by (simp add: Remove_def)
  next
    case (Some e)
    from consistent_index[OF _ Some] c Pair obtain it where
      it: "e \<in> set (items lru)" "Value lru e = Some it" by auto
    from r Pair have
      n: "notify call (key it) (val it) (detach e it lru, w) = Some s'"
      by (auto simp: Remove_present[OF Some it(2)])
    from c Pair have "consistent (detach e it lru)"
      by (simp add: consistent_detach[OF _ it])
    with notify_consistent[OF p _ n] show ?thesis by simp
  qed
qed

lemma Set_consistent:
  assumes p: "preserving call" and c: "consistent (fst s)"
    and r: "Set call k v s = Some s'"
  shows "consistent (fst s')"
proof (cases s)
  case (Pair lru w)
  with c have cl: "consistent lru" by simp
  show ?thesis
  proof (cases "elem lru k")
    case None
    have ci: "consistent (insert_front k v lru)" by (rule consistent_insert_front[OF cl None])
    show ?thesis
    proof (cases "size_lru lru > 0 \<and> Len (insert_front k v lru) > size_lru lru")
      case True
      with r Pair None obtain x where "RemoveOldest call (insert_front k v lru, w) = Some (x, s')"
        by (auto simp: Set_absent)
      from RemoveOldest_consistent[OF p _ this] ci show ?thesis by simp
    next
      case False
      with r Pair None ci show ?thesis by (auto simp: Set_absent)
    qed
  next
    case (Some e)
    from consistent_index[OF cl Some] obtain it where it: "Value lru e = Some it" by auto
    from r Pair have "s' = (overwrite e it v lru, w)" by (simp add: Set_present[OF Some it])
    with consistent_overwrite[OF cl it] show ?thesis by simp
  qed
qed

lemma Get_consistent:
  "consistent lru \<Longrightarrow> Get k lru = Some (x, lru') \<Longrightarrow> consistent lru'"
  by (auto simp: Get_def Let_def consistent_MoveToFront split: option.splits)

lemma Pick_consistent:
  "consistent lru \<Longrightarrow> Pick k lru = Some (x, lru') \<Longrightarrow> consistent lru'"
  by (auto simp: Pick_def split: option.splits)

lemma Clear_consistent:
  assumes p: "preserving call" and c: "consistent (fst s)" and r: "Clear call s = Some s'"
  shows "consistent (fst s')"
proof -
  have "consistent (fst s') \<and> \<not> Len (fst s') > 0"
    by (rule for_loop_rule[OF r[unfolded Clear_def], where I = "\<lambda>s. consistent (fst s)"])
       (use c in \<open>auto dest: RemoveOldest_consistent[OF p]\<close>)
  then show ?thesis ..
qed

lemma Resize_consistent:
  assumes p: "preserving call" and c: "consistent (fst s)" and r: "Resize call n s = Some (x, s')"
  shows "consistent (fst s')"
proof (cases s)
  case (Pair lru w)
  have c0: "consistent (lru\<lparr>size_lru := n\<rparr>)"
    using c Pair by (simp add: consistent_def index_in_sequence_def sequence_in_index_def)
  have "consistent (fst (snd (x, s'))) \<and> \<not> (case (x, s') of (ev, s') \<Rightarrow> Len (fst s') > n)"
    by (rule for_loop_rule[OF r[unfolded Resize_def Pair prod.case],
          where I = "\<lambda>t. consistent (fst (snd t))"])
       (use c0 in \<open>auto dest: RemoveOldest_consistent[OF p]\<close>)
  then show ?thesis by simp
qed

lemma exec_consistent:
  assumes p: "preserving call" and c: "consistent (fst s)" and r: "exec call x s = Some s'"
  shows "consistent (fst s')"
proof (cases x)
  case (OpSet k v)
  with r Set_consistent[OF p c] show ?thesis by simp
next
  case (OpGet k)
  with r c show ?thesis by (auto dest: Get_consistent)
next
  case (OpPick k)
  with r c show ?thesis by (auto dest: Pick_consistent)
next
  case (OpRemove k)
  with r Remove_consistent[OF p c] show ?thesis by auto
next
  case OpRemoveOldest
  with r RemoveOldest_consistent[OF p c] show ?thesis by auto
next
  case (OpResize n)
  with r Resize_consistent[OF p c] show ?thesis by auto
next
  case OpClear
  with r Clear_consistent[OF p c] show ?thesis by simp
next
  case (OpOnEvicted cb)
  with r c show ?thesis
    by (auto simp: OnEvicted_def consistent_def index_in_sequence_def sequence_in_index_def)
qed

lemma run_consistent:
  "preserving call \<Longrightarrow> consistent (fst s) \<Longrightarrow> run call xs s = Some s' \<Longrightarrow> consistent (fst s')"
proof (induction xs arbitrary: s)
  case Nil
  then show ?case by simp
next
  case (Cons x xs)
  from Cons.prems(3) obtain s1 where s1: "exec call x s = Some s1" "run call xs s1 = Some s'"
    by (auto simp: bind_eq_Some_conv)
  from exec_consistent[OF Cons.prems(1,2) s1(1)] Cons.IH[OF Cons.prems(1) _ s1(2)]
  show ?case by simp
qed

lemma preserving_reenter:
  "preserving (reenter n :: ('k::zero, 'v::zero, ('k, 'v) callback, 'w) invoke)"
proof (induction n)
  case 0
  show ?case by (simp add: preserving_def)
next
  case (Suc n)
  show ?case
    unfolding preserving_def
  proof (intro allI impI)
    fix cb k v and s s' :: "('k, 'v, ('k, 'v) callback, 'w) state"
    assume "consistent (fst s)" and "reenter (Suc n) cb k v s = Some s'"
    then show "consistent (fst s')"
      using run_consistent[OF Suc, of s "cb k v" s'] by simp
  qed
qed


section \<open>Consistency is the bijection\<close>

lemma consistent_bij:
  assumes c: "consistent lru"
  shows "bij_betw (\<lambda>k. the (elem lru k)) (dom (elem lru)) (set (items lru))"
  unfolding bij_betw_def
proof
  show "inj_on (\<lambda>k. the (elem lru k)) (dom (elem lru))"
  proof (rule inj_onI)
    fix k k'
    assume "k \<in> dom (elem lru)" "k' \<in> dom (elem lru)" "the (elem lru k) = the (elem lru k')"
    then obtain e where "elem lru k = Some e" "elem lru k' = Some e" by auto
    from consistent_index[OF c this(1)] consistent_index[OF c this(2)]
    show "k = k'" by auto
  qed
next
  show "(\<lambda>k. the (elem lru k)) ` dom (elem lru) = set (items lru)"
  proof (intro equalityI subsetI)
    fix e
    assume "e \<in> (\<lambda>k. the (elem lru k)) ` dom (elem lru)"
    then obtain k where "elem lru k = Some e" by auto
    from consistent_index[OF c this] show "e \<in> set (items lru)" by simp
  next
    fix e
    assume "e \<in> set (items lru)"
    from consistent_sequence[OF c this] obtain it where
      "Value lru e = Some it" "elem lru (key it) = Some e" by blast
    then show "e \<in> (\<lambda>k. the (elem lru k)) ` dom (elem lru)"
      by (force simp: image_iff dom_def)
  qed
qed

lemma consistent_card:
  assumes c: "consistent lru"
  shows "card (dom (elem lru)) = length (items lru)"
  using bij_betw_same_card[OF consistent_bij[OF c]] consistent_distinct[OF c]
  by (simp add: distinct_card)

section \<open>Traversals of a consistent cache\<close>

text \<open>
  In a consistent cache \<^verbatim>\<open>All\<close> and \<^verbatim>\<open>Backward\<close>, with a \<^verbatim>\<open>yield\<close> that collects, return
  the entries of the sequence, front first and back first.
\<close>

lemma consistent_Value: "consistent lru \<Longrightarrow> \<forall>e \<in> set (items lru). Value lru e \<noteq> None"
  using consistent_sequence by fastforce

lemma walk_collect_aux:
  assumes d: "distinct xs" and v: "\<forall>e \<in> set xs. Value lru e \<noteq> None"
    and st: "\<And>pre e post. xs = pre @ e # post \<Longrightarrow>
               step e lru = (case post of [] \<Rightarrow> None | n # _ \<Rightarrow> Some n)"
  shows "xs = pre @ e # post \<Longrightarrow>
    for_loop (\<lambda>(cur, s'). cur \<noteq> None)
      (\<lambda>(cur, s').
         case cur of
           None \<Rightarrow> Some (None, s')
         | Some e \<Rightarrow>
             (let next = step e (fst s')
              in case Value (fst s') e of
                   None \<Rightarrow> None
                 | Some it \<Rightarrow>
                     map_option (\<lambda>(continue, s''). (if continue then next else None, s''))
                       (collect (key it) (val it) s')))
      (Some e, (lru, a)) =
    Some (None, (lru, a @ map (\<lambda>e. case Value lru e of Some it \<Rightarrow> (key it, val it)) (e # post)))"
proof (induction post arbitrary: pre e a)
  case Nil
  from v Nil obtain it where it: "Value lru e = Some it" by auto
  from st[OF Nil] have n: "step e lru = None" by simp
  show ?case
    by (subst for_loop.simps) (simp add: it n collect_def, subst for_loop.simps, simp)
next
  case (Cons n post)
  from v Cons.prems obtain it where it: "Value lru e = Some it" by auto
  from st[OF Cons.prems] have nx: "step e lru = Some n" by simp
  from Cons.prems have "xs = (pre @ [e]) @ n # post" by simp
  from Cons.IH[OF this, of "a @ [(key it, val it)]"] show ?case
    by (subst for_loop.simps) (simp add: it nx collect_def)
qed

lemma walk_collect:
  assumes d: "distinct xs" and v: "\<forall>e \<in> set xs. Value lru e \<noteq> None"
    and st: "\<And>pre e post. xs = pre @ e # post \<Longrightarrow>
               step e lru = (case post of [] \<Rightarrow> None | n # _ \<Rightarrow> Some n)"
  shows "walk step collect (case xs of [] \<Rightarrow> None | e # _ \<Rightarrow> Some e) (lru, a) =
         Some (lru, a @ map (\<lambda>e. case Value lru e of Some it \<Rightarrow> (key it, val it)) xs)"
proof (cases xs)
  case Nil
  then show ?thesis by (simp add: walk_def) (subst for_loop.simps, simp)
next
  case (Cons e post)
  then have split: "xs = [] @ e # post" by simp
  have "for_loop (\<lambda>(cur, s'). cur \<noteq> None)
      (\<lambda>(cur, s').
         case cur of
           None \<Rightarrow> Some (None, s')
         | Some e \<Rightarrow>
             (let next = step e (fst s')
              in case Value (fst s') e of
                   None \<Rightarrow> None
                 | Some it \<Rightarrow>
                     map_option (\<lambda>(continue, s''). (if continue then next else None, s''))
                       (collect (key it) (val it) s')))
      (Some e, (lru, a)) =
    Some (None, (lru, a @ map (\<lambda>e. case Value lru e of Some it \<Rightarrow> (key it, val it)) (e # post)))"
    by (rule walk_collect_aux[where step = step and xs = xs and pre = "[]", OF d v])
       (use st split in auto)
  with Cons show ?thesis
    by (simp add: walk_def)
qed

lemma dropWhile_neq_split:
  "distinct (pre @ e # post) \<Longrightarrow> dropWhile (\<lambda>x. x \<noteq> e) (pre @ e # post) = e # post"
  by (induction pre) auto

lemma All_collect: "consistent lru \<Longrightarrow> All collect (lru, a) = Some (lru, a @ entries lru)"
proof -
  assume c: "consistent lru"
  have d: "distinct (items lru)" by (rule consistent_distinct[OF c])
  have nx: "Next e lru = (case post of [] \<Rightarrow> None | n # _ \<Rightarrow> Some n)"
    if "items lru = pre @ e # post" for pre e post
    using d that by (simp add: Next_def dropWhile_neq_split split: list.splits)
  have "walk Next collect (case items lru of [] \<Rightarrow> None | e # _ \<Rightarrow> Some e) (lru, a) =
        Some (lru, a @ map (\<lambda>e. case Value lru e of Some it \<Rightarrow> (key it, val it)) (items lru))"
    by (rule walk_collect[where step = Next, OF d consistent_Value[OF c]]) (rule nx)
  then show ?thesis
    by (simp add: All_def Front_def entries_def)
qed

lemma Backward_collect:
  "consistent lru \<Longrightarrow> Backward collect (lru, a) = Some (lru, a @ rev (entries lru))"
proof -
  assume c: "consistent lru"
  have d: "distinct (rev (items lru))" using consistent_distinct[OF c] by simp
  have v: "\<forall>e \<in> set (rev (items lru)). Value lru e \<noteq> None"
    using consistent_Value[OF c] by simp
  have pv: "Prev e lru = (case post of [] \<Rightarrow> None | n # _ \<Rightarrow> Some n)"
    if "rev (items lru) = pre @ e # post" for pre e post
    using d that by (simp add: Prev_def dropWhile_neq_split split: list.splits)
  have "walk Prev collect (case rev (items lru) of [] \<Rightarrow> None | e # _ \<Rightarrow> Some e) (lru, a) =
        Some (lru, a @ map (\<lambda>e. case Value lru e of Some it \<Rightarrow> (key it, val it))
          (rev (items lru)))"
    by (rule walk_collect[where step = Prev, OF d v]) (rule pv)
  then have "walk Prev collect (case rev (items lru) of [] \<Rightarrow> None | e # _ \<Rightarrow> Some e) (lru, a) =
        Some (lru, a @ rev (entries lru))"
    by (simp add: entries_def rev_map)
  moreover have "(case rev (items lru) of [] \<Rightarrow> None | e # _ \<Rightarrow> Some e) = Back lru"
    by (cases "items lru" rule: rev_cases) (simp_all add: Back_def)
  ultimately show ?thesis by (simp add: Backward_def)
qed

lemma newest_first_entries: "consistent lru \<Longrightarrow> newest_first lru = Some (entries lru)"
  by (simp add: newest_first_def All_collect)

lemma oldest_first_entries: "consistent lru \<Longrightarrow> oldest_first lru = Some (rev (entries lru))"
  by (simp add: oldest_first_def Backward_collect)

lemma length_entries: "length (entries lru) = length (items lru)"
  by (simp add: entries_def)

lemma entries_detach_last:
  assumes c: "consistent lru" and ne: "items lru \<noteq> []"
  shows "entries (detach (last (items lru)) it lru) = butlast (entries lru)"
proof -
  have d: "distinct (items lru)" by (rule consistent_distinct[OF c])
  from ne obtain xs x where xs: "items lru = xs @ [x]" by (metis rev_exhaust)
  with d have "x \<notin> set xs" by simp
  then have r: "remove1 x (xs @ [x]) = xs" by (simp add: remove1_append)
  from \<open>x \<notin> set xs\<close> have
    "map (\<lambda>e. case ((Value lru)(x := None)) e of Some it \<Rightarrow> (key it, val it)) xs =
     map (\<lambda>e. case Value lru e of Some it \<Rightarrow> (key it, val it)) xs"
    by (intro map_cong) auto
  with xs r show ?thesis by (simp add: entries_def detach_fields)
qed

lemma entries_insert_front:
  assumes c: "consistent lru"
  shows "entries (insert_front k v lru) = (k, v) # entries lru"
proof -
  have "map (\<lambda>e. case ((Value lru)(fresh lru \<mapsto> \<lparr>key = k, val = v\<rparr>)) e of
                    Some it \<Rightarrow> (key it, val it)) (items lru) =
        map (\<lambda>e. case Value lru e of Some it \<Rightarrow> (key it, val it)) (items lru)"
    using fresh_notin_items[OF c] by (intro map_cong) auto
  then show ?thesis by (simp add: entries_def insert_front_fields)
qed

lemma filter_neq_remove1: "distinct xs \<Longrightarrow> filter (\<lambda>y. y \<noteq> x) xs = remove1 x xs"
  by (induction xs) (auto simp: remove1_idem)

lemma entries_remove1:
  assumes c: "consistent lru" and el: "elem lru k = Some e"
  shows "map (\<lambda>e. case Value lru e of Some it \<Rightarrow> (key it, val it)) (remove1 e (items lru)) =
         filter (\<lambda>x. fst x \<noteq> k) (entries lru)"
proof -
  let ?f = "\<lambda>e. case Value lru e of Some it \<Rightarrow> (key it, val it)"
  have d: "distinct (items lru)" by (rule consistent_distinct[OF c])
  have iff: "fst (?f e') \<noteq> k \<longleftrightarrow> e' \<noteq> e" if "e' \<in> set (items lru)" for e'
  proof -
    from consistent_sequence[OF c that] obtain it' where
      it': "Value lru e' = Some it'" "elem lru (key it') = Some e'" by blast
    from consistent_index[OF c el] obtain it where
      it: "Value lru e = Some it" "key it = k" by blast
    from it it' el show ?thesis by auto
  qed
  have "filter (\<lambda>x. fst x \<noteq> k) (entries lru) =
        map ?f (filter (\<lambda>e'. fst (?f e') \<noteq> k) (items lru))"
    by (simp add: entries_def filter_map comp_def)
  also have "filter (\<lambda>e'. fst (?f e') \<noteq> k) (items lru) = filter (\<lambda>e'. e' \<noteq> e) (items lru)"
    by (rule filter_cong[OF refl]) (rule iff)
  also have "\<dots> = remove1 e (items lru)"
    by (rule filter_neq_remove1[OF d])
  finally show ?thesis by simp
qed

lemma entries_MoveToFront:
  assumes c: "consistent lru" and el: "elem lru k = Some e" and v: "Value lru e = Some it"
  shows "entries (MoveToFront e lru) = (k, val it) # filter (\<lambda>x. fst x \<noteq> k) (entries lru)"
proof -
  from consistent_index[OF c el] v have mem: "e \<in> set (items lru)" and k: "key it = k" by auto
  from mem have "entries (MoveToFront e lru) =
      (case Value lru e of Some it \<Rightarrow> (key it, val it)) #
      map (\<lambda>e. case Value lru e of Some it \<Rightarrow> (key it, val it)) (remove1 e (items lru))"
    by (simp add: entries_def MoveToFront_def)
  with v k entries_remove1[OF c el] show ?thesis by simp
qed

lemma entries_overwrite:
  assumes c: "consistent lru" and el: "elem lru k = Some e" and v: "Value lru e = Some it"
  shows "entries (overwrite e it v' lru) = (k, v') # filter (\<lambda>x. fst x \<noteq> k) (entries lru)"
proof -
  from consistent_index[OF c el] v have mem: "e \<in> set (items lru)" and k: "key it = k" by auto
  have d: "distinct (items lru)" by (rule consistent_distinct[OF c])
  have "map (\<lambda>x. case ((Value lru)(e \<mapsto> it\<lparr>val := v'\<rparr>)) x of Some it \<Rightarrow> (key it, val it))
          (remove1 e (items lru)) =
        map (\<lambda>e. case Value lru e of Some it \<Rightarrow> (key it, val it)) (remove1 e (items lru))"
    using d by (intro map_cong) auto
  with mem k entries_remove1[OF c el] show ?thesis
    by (simp add: entries_def overwrite_fields items_MoveToFront)
qed

section \<open>An example cache\<close>

lemma cache3_reached:
  "run call [OpOnEvicted (Some bump), OpSet 1 0, OpSet 2 1, OpSet 3 2] (New 3, w) =
     Some (cache3, w)"
  by (simp add: op_defs cache3_def eval_nat_numeral)

lemma consistent_cache3: "consistent cache3"
  using run_consistent[OF preserving_reenter _ cache3_reached[of "reenter 0" "()"]]
  by (simp add: consistent_New)

lemma entries_cache3: "newest_first cache3 = Some [(3, 2), (2, 1), (1, 0)]"
  by (simp add: newest_first_entries[OF consistent_cache3]) (simp add: entries_def cache3_def)

section \<open>Clear with a callback that leaves the cache alone\<close>

lemma Clear_unfold:
  "Clear call s =
     (if Len (fst s) > 0 then Option.bind (map_option snd (RemoveOldest call s)) (Clear call)
      else Some s)"
  unfolding Clear_def by (subst for_loop.simps) simp

lemma notify_logged:
  "notify (logged call) k v (lru, (w, tr)) =
     (case evicted lru of
        None \<Rightarrow> Some (lru, (w, tr))
      | Some cb \<Rightarrow>
          map_option (\<lambda>(lru', w'). (lru', (w', tr @ [(k, v, lru)]))) (call cb k v (lru, w)))"
  by (simp add: notify_def logged_def split: option.splits)

lemma notify_observed:
  "notify (observed call) k v (lru, (w, tr)) =
     (case evicted lru of
        None \<Rightarrow> Some (lru, (w, tr))
      | Some cb \<Rightarrow>
          map_option (\<lambda>(lru', w'). (lru', (w', tr @ [(k, v, lru, lru')])))
            (call cb k v (lru, w)))"
  by (simp add: notify_def observed_def split: option.splits)

lemma Clear_logged_quiet:
  assumes q: "\<And>k v c w. \<exists>w'. call cb k v (c, w) = Some (c, w')"
  shows "consistent lru \<Longrightarrow> evicted lru = Some cb \<Longrightarrow>
    \<exists>lru' w' tr'. Clear (logged call) (lru, (w, tr)) = Some (lru', (w', tr @ tr')) \<and>
       map (\<lambda>(k, v, c). (k, v)) tr' = rev (entries lru) \<and> items lru' = []"
proof (induction "length (items lru)" arbitrary: lru w tr)
  case 0
  then show ?case by (subst Clear_unfold) (simp add: Len_def entries_def)
next
  case (Suc n)
  then have ne: "items lru \<noteq> []" by auto
  then have mem: "last (items lru) \<in> set (items lru)" by simp
  from consistent_sequence[OF Suc.prems(1) mem] obtain it where
    it: "Value lru (last (items lru)) = Some it" by blast
  let ?d = "detach (last (items lru)) it lru"
  have cd: "consistent ?d" by (rule consistent_detach[OF Suc.prems(1) mem it])
  have ed: "evicted ?d = Some cb" using Suc.prems(2) by (simp add: detach_fields)
  from q[of "key it" "val it" ?d w] obtain w1 where
    w1: "call cb (key it) (val it) (?d, w) = Some (?d, w1)" by blast
  have ro: "RemoveOldest (logged call) (lru, (w, tr)) =
      Some ((key it, val it, True), (?d, (w1, tr @ [(key it, val it, ?d)])))"
    by (simp add: RemoveOldest_nonempty[OF ne it] notify_logged ed w1)
  have len: "n = length (items ?d)"
    using Suc.hyps(2) mem by (simp add: detach_fields length_remove1)
  from Suc.hyps(1)[OF len cd ed, of w1 "tr @ [(key it, val it, ?d)]"] obtain lru' w' tr' where
    r: "Clear (logged call) (?d, (w1, tr @ [(key it, val it, ?d)])) =
          Some (lru', (w', (tr @ [(key it, val it, ?d)]) @ tr'))"
       "map (\<lambda>(k, v, c). (k, v)) tr' = rev (entries ?d)" "items lru' = []"
    by blast
  have e: "entries lru = entries ?d @ [(key it, val it)]"
  proof -
    have "entries lru = butlast (entries lru) @ [last (entries lru)]"
      using ne by (simp add: entries_def)
    moreover have "last (entries lru) = (key it, val it)"
      using ne it by (simp add: entries_def last_map)
    ultimately show ?thesis by (simp add: entries_detach_last[OF Suc.prems(1) ne])
  qed
  have "Clear (logged call) (lru, (w, tr)) =
      Some (lru', (w', tr @ ((key it, val it, ?d) # tr')))"
    using ne r(1) by (subst Clear_unfold) (simp add: Len_def ro)
  with r(2,3) e show ?case by auto
qed

section \<open>Invariants of Clear and Resize\<close>

lemma Clear_rule:
  assumes r: "Clear call s = Some s'" and i: "I s"
    and step: "\<And>s s' x. I s \<Longrightarrow> RemoveOldest call s = Some (x, s') \<Longrightarrow> I s'"
  shows "I s' \<and> Len (fst s') \<le> 0"
proof -
  have "I s' \<and> \<not> Len (fst s') > 0"
    by (rule for_loop_rule[OF r[unfolded Clear_def], where I = I])
       (use i step in auto)
  then show ?thesis by simp
qed

lemma Resize_rule:
  assumes r: "Resize call n s = Some (x, s')" and i: "I ((fst s)\<lparr>size_lru := n\<rparr>, snd s)"
    and step: "\<And>s s' x. I s \<Longrightarrow> RemoveOldest call s = Some (x, s') \<Longrightarrow> I s'"
  shows "I s' \<and> Len (fst s') \<le> n"
proof -
  from r have r': "for_loop (\<lambda>(ev, s'). Len (fst s') > n)
      (\<lambda>(ev, s'). map_option (\<lambda>(r, s''). (ev + 1, s'')) (RemoveOldest call s'))
      (0, ((fst s)\<lparr>size_lru := n\<rparr>, snd s)) = Some (x, s')"
    by (simp add: Resize_def split: prod.splits)
  have "I (snd (x, s')) \<and> \<not> (case (x, s') of (ev, s') \<Rightarrow> Len (fst s') > n)"
    by (rule for_loop_rule[OF r', where I = "\<lambda>t. I (snd t)"])
       (use i step in auto)
  then show ?thesis by simp
qed

section \<open>The log of the callback's calls\<close>

lemma preserving_logged: "preserving call \<Longrightarrow> preserving (logged call)"
  unfolding preserving_def logged_def by (auto split: prod.splits)

lemma detach_undiscoverable: "elem (detach e it lru) (key it) = None"
  by (simp add: detach_fields)

lemma detach_detached:
  assumes c: "consistent lru" and e: "e \<in> set (items lru)" and v: "Value lru e = Some it"
  shows "detached (key it) (detach e it lru)"
  unfolding detached_def
proof (intro conjI ballI)
  show "elem (detach e it lru) (key it) = None" by (rule detach_undiscoverable)
next
  fix e'
  assume "e' \<in> set (items (detach e it lru))"
  from consistent_sequence[OF consistent_detach[OF c e v] this] obtain j where
    "Value (detach e it lru) e' = Some j" "elem (detach e it lru) (key j) = Some e'" by blast
  then show "map_option key (Value (detach e it lru) e') \<noteq> Some (key it)"
    by (auto simp: detach_fields split: if_splits)
qed

lemma notify_logged_cases:
  assumes "notify (logged call) k v (c, (w, tr)) = Some (c', (w', tr'))"
  shows "tr' = tr \<or> tr' = tr @ [(k, v, c)]"
  using assms by (auto simp: notify_logged split: option.splits)

lemma RemoveOldest_logged_log:
  assumes "RemoveOldest (logged call) (lru, (w, tr)) = Some (x, (lru', (w', tr')))"
  shows "tr' = tr \<or>
         (\<exists>it. items lru \<noteq> [] \<and> Value lru (last (items lru)) = Some it \<and>
               tr' = tr @ [(key it, val it, detach (last (items lru)) it lru)])"
proof (cases "items lru = []")
  case True
  with assms show ?thesis by (simp add: RemoveOldest_def Back_def)
next
  case False
  from assms False obtain it where it: "Value lru (last (items lru)) = Some it"
    by (auto simp: RemoveOldest_def Back_def split: option.splits)
  from assms have "notify (logged call) (key it) (val it)
      (detach (last (items lru)) it lru, (w, tr)) = Some (lru', (w', tr'))"
    by (auto simp: RemoveOldest_nonempty[OF False it])
  from notify_logged_cases[OF this] False it show ?thesis by auto
qed

lemma Remove_logged_log:
  assumes "Remove (logged call) k (lru, (w, tr)) = Some (x, (lru', (w', tr')))"
  shows "tr' = tr \<or>
         (\<exists>e it. elem lru k = Some e \<and> Value lru e = Some it \<and>
               tr' = tr @ [(key it, val it, detach e it lru)])"
proof (cases "elem lru k")
  case None
  with assms show ?thesis by (simp add: Remove_def)
next
  case (Some e)
  from assms Some obtain it where it: "Value lru e = Some it"
    by (auto simp: Remove_def split: option.splits)
  from assms have "notify (logged call) (key it) (val it)
      (detach e it lru, (w, tr)) = Some (lru', (w', tr'))"
    by (auto simp: Remove_present[OF Some it])
  from notify_logged_cases[OF this] Some it show ?thesis by auto
qed

lemma Set_logged_log:
  assumes "Set (logged call) k v (lru, (w, tr)) = Some (lru', (w', tr'))"
  shows "tr' = tr \<or>
         (\<exists>it. elem lru k = None \<and> items (insert_front k v lru) \<noteq> [] \<and>
               Value (insert_front k v lru) (last (items (insert_front k v lru))) = Some it \<and>
               tr' = tr @ [(key it, val it,
                 detach (last (items (insert_front k v lru))) it (insert_front k v lru))])"
proof (cases "elem lru k")
  case (Some e)
  with assms show ?thesis by (auto simp: Set_def Let_def split: option.splits)
next
  case None
  show ?thesis
  proof (cases "size_lru lru > 0 \<and> Len (insert_front k v lru) > size_lru lru")
    case True
    with assms None obtain x where
      "RemoveOldest (logged call) (insert_front k v lru, (w, tr)) = Some (x, (lru', (w', tr')))"
      by (auto simp: Set_absent)
    from RemoveOldest_logged_log[OF this] None show ?thesis by auto
  next
    case False
    with assms None show ?thesis by (auto simp: Set_absent)
  qed
qed

lemma log_ok_append: "log_ok P (tr @ [(k, v, c)]) \<longleftrightarrow> log_ok P tr \<and> P k c"
  by (auto simp: log_ok_def)

lemma RemoveOldest_undisc:
  assumes "RemoveOldest (logged call) s = Some (x, s')"
    and "log_ok (\<lambda>k c. elem c k = None) (snd (snd s))"
  shows "log_ok (\<lambda>k c. elem c k = None) (snd (snd s'))"
proof -
  obtain lru w tr where s: "s = (lru, (w, tr))" by (cases s) auto
  obtain lru' w' tr' where s': "s' = (lru', (w', tr'))" by (cases s') auto
  from RemoveOldest_logged_log[OF assms(1)[unfolded s s']] assms(2) s s'
  show ?thesis by (auto simp: log_ok_append detach_undiscoverable)
qed

lemma RemoveOldest_det:
  assumes p: "preserving call"
    and "RemoveOldest (logged call) s = Some (x, s')"
    and "consistent (fst s) \<and> log_ok (\<lambda>k c. consistent c \<and> detached k c) (snd (snd s))"
  shows "consistent (fst s') \<and> log_ok (\<lambda>k c. consistent c \<and> detached k c) (snd (snd s'))"
proof
  show "consistent (fst s')"
    using RemoveOldest_consistent[OF preserving_logged[OF p] _ assms(2)] assms(3) by simp
next
  obtain lru w tr where s: "s = (lru, (w, tr))" by (cases s) auto
  obtain lru' w' tr' where s': "s' = (lru', (w', tr'))" by (cases s') auto
  from assms(3) s have c: "consistent lru" by simp
  from RemoveOldest_logged_log[OF assms(2)[unfolded s s']] assms(3) s s'
  show "log_ok (\<lambda>k c. consistent c \<and> detached k c) (snd (snd s'))"
    by (auto simp: log_ok_append consistent_detach[OF c] detach_detached[OF c])
qed

lemma exec_undisc:
  assumes "exec (logged call) x s = Some s'"
    and "log_ok (\<lambda>k c. elem c k = None) (snd (snd s))"
  shows "log_ok (\<lambda>k c. elem c k = None) (snd (snd s'))"
proof -
  obtain lru w tr where s: "s = (lru, (w, tr))" by (cases s) auto
  obtain lru' w' tr' where s': "s' = (lru', (w', tr'))" by (cases s') auto
  show ?thesis
  proof (cases x)
    case (OpSet k v)
    with assms(1) s s' have "Set (logged call) k v (lru, (w, tr)) = Some (lru', (w', tr'))"
      by simp
    from Set_logged_log[OF this] assms(2) s s' show ?thesis
      by (auto simp: log_ok_append detach_undiscoverable)
  next
    case (OpGet k)
    with assms show ?thesis by auto
  next
    case (OpPick k)
    with assms show ?thesis by auto
  next
    case (OpRemove k)
    with assms(1) s s' obtain y where
      "Remove (logged call) k (lru, (w, tr)) = Some (y, (lru', (w', tr')))" by auto
    from Remove_logged_log[OF this] assms(2) s s' show ?thesis
      by (auto simp: log_ok_append detach_undiscoverable)
  next
    case OpRemoveOldest
    with assms show ?thesis by (auto dest: RemoveOldest_undisc)
  next
    case (OpResize n)
    with assms(1) obtain ev where r: "Resize (logged call) n s = Some (ev, s')" by auto
    have "log_ok (\<lambda>k c. elem c k = None) (snd (snd s')) \<and> Len (fst s') \<le> n"
      by (rule Resize_rule[OF r, where I = "\<lambda>t. log_ok (\<lambda>k c. elem c k = None) (snd (snd t))"])
         (use assms(2) in \<open>auto dest: RemoveOldest_undisc\<close>)
    then show ?thesis by simp
  next
    case OpClear
    with assms(1) have r: "Clear (logged call) s = Some s'" by simp
    have "log_ok (\<lambda>k c. elem c k = None) (snd (snd s')) \<and> Len (fst s') \<le> 0"
      by (rule Clear_rule[OF r, where I = "\<lambda>t. log_ok (\<lambda>k c. elem c k = None) (snd (snd t))"])
         (use assms(2) in \<open>auto dest: RemoveOldest_undisc\<close>)
    then show ?thesis by simp
  next
    case (OpOnEvicted cb)
    with assms show ?thesis by auto
  qed
qed

lemma consistent_size_update: "consistent (lru\<lparr>size_lru := n\<rparr>) = consistent lru"
  by (simp add: consistent_def index_in_sequence_def sequence_in_index_def)

lemma exec_det:
  assumes p: "preserving call" and x: "exec (logged call) x s = Some s'"
    and k: "consistent (fst s) \<and> log_ok (\<lambda>k c. consistent c \<and> detached k c) (snd (snd s))"
  shows "consistent (fst s') \<and> log_ok (\<lambda>k c. consistent c \<and> detached k c) (snd (snd s'))"
proof
  show "consistent (fst s')"
    using exec_consistent[OF preserving_logged[OF p] _ x] k by simp
next
  obtain lru w tr where s: "s = (lru, (w, tr))" by (cases s) auto
  obtain lru' w' tr' where s': "s' = (lru', (w', tr'))" by (cases s') auto
  from k s have c: "consistent lru" by simp
  show "log_ok (\<lambda>k c. consistent c \<and> detached k c) (snd (snd s'))"
  proof (cases x)
    case (OpSet k v)
    with x s s' have "Set (logged call) k v (lru, (w, tr)) = Some (lru', (w', tr'))"
      by simp
    from Set_logged_log[OF this] show ?thesis
    proof
      assume "tr' = tr"
      with k s s' show ?thesis by simp
    next
      assume "\<exists>it. elem lru k = None \<and> items (insert_front k v lru) \<noteq> [] \<and>
               Value (insert_front k v lru) (last (items (insert_front k v lru))) = Some it \<and>
               tr' = tr @ [(key it, val it,
                 detach (last (items (insert_front k v lru))) it (insert_front k v lru))]"
      then obtain it where it: "elem lru k = None" "items (insert_front k v lru) \<noteq> []"
        "Value (insert_front k v lru) (last (items (insert_front k v lru))) = Some it"
        "tr' = tr @ [(key it, val it,
                 detach (last (items (insert_front k v lru))) it (insert_front k v lru))]"
        by blast
      have ci: "consistent (insert_front k v lru)" by (rule consistent_insert_front[OF c it(1)])
      from it(2) have mem: "last (items (insert_front k v lru)) \<in> set (items (insert_front k v lru))"
        by simp
      from k s s' it(4) consistent_detach[OF ci mem it(3)] detach_detached[OF ci mem it(3)]
      show ?thesis by (simp add: log_ok_append)
    qed
  next
    case (OpGet k)
    with x k show ?thesis by auto
  next
    case (OpPick k)
    with x k show ?thesis by auto
  next
    case (OpRemove k)
    with x s s' obtain y where
      "Remove (logged call) k (lru, (w, tr)) = Some (y, (lru', (w', tr')))" by auto
    from Remove_logged_log[OF this] show ?thesis
    proof
      assume "tr' = tr"
      with k s s' show ?thesis by simp
    next
      assume "\<exists>e it. elem lru k = Some e \<and> Value lru e = Some it \<and>
               tr' = tr @ [(key it, val it, detach e it lru)]"
      then obtain e it where it: "elem lru k = Some e" "Value lru e = Some it"
        "tr' = tr @ [(key it, val it, detach e it lru)]" by blast
      from consistent_index[OF c it(1)] have mem: "e \<in> set (items lru)" by simp
      from k s s' it(3) consistent_detach[OF c mem it(2)] detach_detached[OF c mem it(2)]
      show ?thesis by (simp add: log_ok_append)
    qed
  next
    case OpRemoveOldest
    with x obtain y where "RemoveOldest (logged call) s = Some (y, s')" by auto
    from RemoveOldest_det[OF p this k] show ?thesis by simp
  next
    case (OpResize n)
    with x obtain ev where r: "Resize (logged call) n s = Some (ev, s')" by auto
    have "(consistent (fst s') \<and>
           log_ok (\<lambda>k c. consistent c \<and> detached k c) (snd (snd s'))) \<and> Len (fst s') \<le> n"
      by (rule Resize_rule[OF r, where I = "\<lambda>t. consistent (fst t) \<and>
             log_ok (\<lambda>k c. consistent c \<and> detached k c) (snd (snd t))"])
         (use k RemoveOldest_det[OF p] in \<open>auto simp: consistent_size_update\<close>)
    then show ?thesis by simp
  next
    case OpClear
    with x have r: "Clear (logged call) s = Some s'" by simp
    have "(consistent (fst s') \<and>
           log_ok (\<lambda>k c. consistent c \<and> detached k c) (snd (snd s'))) \<and> Len (fst s') \<le> 0"
      by (rule Clear_rule[OF r, where I = "\<lambda>t. consistent (fst t) \<and>
             log_ok (\<lambda>k c. consistent c \<and> detached k c) (snd (snd t))"])
         (use k RemoveOldest_det[OF p] in auto)
    then show ?thesis by simp
  next
    case (OpOnEvicted cb)
    with x k show ?thesis by auto
  qed
qed

lemma preserving_tally: "preserving tally"
  by (auto simp: preserving_def tally_def)

section \<open>Set on a cache without callback\<close>

lemma Set_bounded:
  assumes n: "0 < N" and b: "bounded N lru"
  shows "\<exists>lru'. Set call k v (lru, w) = Some (lru', w) \<and> bounded N lru' \<and>
           (elem lru k = None \<and> Len lru = N \<longrightarrow>
              Len lru' = N \<and> entries lru' = (k, v) # butlast (entries lru))"
proof (cases "elem lru k")
  case (Some e)
  from b have c: "consistent lru" by (simp add: bounded_def)
  from consistent_index[OF c Some] obtain it where
    it: "e \<in> set (items lru)" "Value lru e = Some it" by blast
  have "Len (overwrite e it v lru) = Len lru"
    using it(1) length_pos_if_in_set[OF it(1)]
    by (simp add: Len_def overwrite_fields items_MoveToFront length_remove1)
  with b consistent_overwrite[OF c it(2)] Some show ?thesis
    by (simp add: Set_present[OF Some it(2)] bounded_def overwrite_fields)
next
  case None
  from b have c: "consistent lru" and ev: "evicted lru = None" and sz: "size_lru lru = N"
    and le: "Len lru \<le> N" by (simp_all add: bounded_def)
  let ?i = "insert_front k v lru"
  have ci: "consistent ?i" by (rule consistent_insert_front[OF c None])
  have li: "Len ?i = Len lru + 1" by (simp add: Len_def insert_front_fields)
  show ?thesis
  proof (cases "Len lru = N")
    case False
    with le li n sz have nc: "\<not> (size_lru lru > 0 \<and> Len ?i > size_lru lru)" by simp
    have "Set call k v (lru, w) = Some (?i, w)"
      by (simp only: Set_absent[OF None] nc if_False)
    moreover from ci ev sz le li False have "bounded N ?i"
      by (simp add: bounded_def insert_front_fields)
    ultimately show ?thesis using False by simp
  next
    case True
    with n have ne: "items lru \<noteq> []" by (auto simp: Len_def)
    then have ne': "items ?i \<noteq> []" and mem: "last (items ?i) \<in> set (items ?i)"
      by (simp_all add: insert_front_fields)
    from consistent_sequence[OF ci mem] obtain it where
      it: "Value ?i (last (items ?i)) = Some it" by blast
    let ?d = "detach (last (items ?i)) it ?i"
    from True li n sz have "size_lru lru > 0 \<and> Len ?i > size_lru lru" by simp
    with None ev have s: "Set call k v (lru, w) = Some (?d, w)"
      by (simp add: Set_absent RemoveOldest_nonempty[OF ne' it] notify_def detach_fields
          insert_front_fields)
    have ld: "Len ?d = N"
      using True li mem length_pos_if_in_set[OF mem]
      by (simp add: Len_def detach_fields length_remove1)
    have "entries ?d = (k, v) # butlast (entries lru)"
    proof -
      from ne have "entries lru \<noteq> []" by (simp add: entries_def)
      then show ?thesis
        by (simp add: entries_detach_last[OF ci ne'] entries_insert_front[OF c])
    qed
    moreover from consistent_detach[OF ci mem it] ev sz ld have "bounded N ?d"
      by (simp add: bounded_def detach_fields insert_front_fields)
    ultimately show ?thesis using s ld by simp
  qed
qed

lemma run_Sets_bounded:
  assumes n: "0 < N"
  shows "bounded N lru \<Longrightarrow>
    \<exists>lru'. run call (map (\<lambda>(k, v). OpSet k v) kvs) (lru, w) = Some (lru', w) \<and> bounded N lru'"
proof (induction kvs arbitrary: lru)
  case Nil
  then show ?case by simp
next
  case (Cons kv kvs)
  obtain k v where kv: "kv = (k, v)" by (cases kv)
  from Set_bounded[OF n Cons.prems, of call k v w] obtain lru1 where
    l: "Set call k v (lru, w) = Some (lru1, w)" "bounded N lru1" by blast
  from Cons.IH[OF l(2)] l(1) kv show ?case by simp
qed

section \<open>Resize with a negative size\<close>

lemma Resize_negative: "n < 0 \<Longrightarrow> Resize call n s = None"
proof (rule ccontr)
  assume n: "n < 0" and "Resize call n s \<noteq> None"
  then obtain x s' where r: "Resize call n s = Some (x, s')" by auto
  have "True \<and> Len (fst s') \<le> n"
    by (rule Resize_rule[OF r, where I = "\<lambda>t. True"]) simp_all
  with n show False by (simp add: Len_def)
qed

section \<open>The wrapper follows the engine\<close>

text \<open>
  The engine does not look at the caller's world, so with the mutex added to the world it
  runs as before, as long as the callback's code agrees; the wrapper's operations then run
  as the engine's do.
\<close>

lemma for_loop_lift_Some:
  assumes c: "\<And>s. cond' (f s) = cond s" and b: "\<And>s. body' (f s) = map_option f (body s)"
  shows "for_loop c0 b0 s = Some t \<Longrightarrow> c0 = cond \<longrightarrow> b0 = body \<longrightarrow>
         for_loop cond' body' (f s) = Some (f t)"
proof (induction rule: for_loop.raw_induct [rotated 1, consumes 1])
  case (1 loop c0 b0 s t)
  show ?case
  proof (intro impI)
    assume e: "c0 = cond" "b0 = body"
    show "for_loop cond' body' (f s) = Some (f t)"
    proof (cases "cond s")
      case True
      with 1(2) e obtain s1 where s1: "body s = Some s1" "loop cond body s1 = Some t"
        by (auto simp: bind_eq_Some_conv)
      from 1(1)[OF s1(2)[folded e]] e have "for_loop cond' body' (f s1) = Some (f t)" by simp
      with True s1(1) show ?thesis by (subst for_loop.simps) (simp add: c b)
    next
      case False
      with 1(2) e show ?thesis by (subst for_loop.simps) (simp add: c)
    qed
  qed
qed

lemma for_loop_lift_back:
  assumes c: "\<And>s. cond' (f s) = cond s" and b: "\<And>s. body' (f s) = map_option f (body s)"
  shows "for_loop c0 b0 s' = Some t' \<Longrightarrow> c0 = cond' \<longrightarrow> b0 = body' \<longrightarrow>
         (\<forall>s. s' = f s \<longrightarrow> (\<exists>t. t' = f t \<and> for_loop cond body s = Some t))"
proof (induction rule: for_loop.raw_induct [rotated 1, consumes 1])
  case (1 loop c0 b0 s' t')
  show ?case
  proof (intro impI allI)
    fix s
    assume e: "c0 = cond'" "b0 = body'" and s: "s' = f s"
    show "\<exists>t. t' = f t \<and> for_loop cond body s = Some t"
    proof (cases "cond s")
      case True
      with 1(2) e s obtain s1 where s1: "body s = Some s1" "loop cond' body' (f s1) = Some t'"
        by (auto simp: bind_eq_Some_conv c b)
      from 1(1)[OF s1(2)[folded e]] e obtain t where
        "t' = f t" "for_loop cond body s1 = Some t" by blast
      with True s1(1) show ?thesis by (subst for_loop.simps) simp
    next
      case False
      with 1(2) e s show ?thesis by (subst for_loop.simps) (auto simp: c)
    qed
  qed
qed

lemma for_loop_lift:
  assumes c: "\<And>s. cond' (f s) = cond s" and b: "\<And>s. body' (f s) = map_option f (body s)"
  shows "for_loop cond' body' (f s) = map_option f (for_loop cond body s)"
proof (cases "for_loop cond body s")
  case (Some t)
  with for_loop_lift_Some[of cond' f cond body' body, OF c b Some] show ?thesis by simp
next
  case None
  show ?thesis
  proof (cases "for_loop cond' body' (f s)")
    case (Some t')
    from for_loop_lift_back[of cond' f cond body' body, OF c b Some] None show ?thesis by auto
  next
    case None': None
    with None show ?thesis by simp
  qed
qed

lemma on_mut_lift:
  "on_mut Lock (lift Unlocked s) = Some (lift Locked s)"
  "on_mut Unlock (lift Locked s) = Some (lift Unlocked s)"
  by (simp_all add: on_mut_def lift_def mut_def Lock_def Unlock_def)

lemma lift_fields: "fst (lift m s) = fst s" "snd (lift m s) = (m, snd s)" "mut (lift m s) = m"
  by (simp_all add: lift_def mut_def)

lemma lift_pair: "(lru, (m, w)) = lift m (lru, w)"
  by (simp add: lift_def)

lemma agreesD:
  "agrees m call user \<Longrightarrow> user cb k v (lift m s) = map_option (lift m) (call cb k v s)"
  by (cases s) (simp add: agrees_def)

lemma agrees_yieldD:
  "agrees_yield m yield user \<Longrightarrow>
   user k v (lift m s) = map_option (\<lambda>(b, s'). (b, lift m s')) (yield k v s)"
  by (cases s) (simp add: agrees_yield_def)

lemma agrees_envelope:
  assumes "agrees Unlocked call user"
  shows "agrees Locked call (envelope user)"
  unfolding agrees_def
proof (intro allI)
  fix cb k v s
  show "envelope user cb k v (lift Locked s) = map_option (lift Locked) (call cb k v s)"
    by (cases "call cb k v s") (simp_all add: envelope_def on_mut_lift agreesD[OF assms])
qed

lemma agrees_envelope_yield:
  assumes "agrees_yield Unlocked yield user"
  shows "agrees_yield Locked yield (envelope_yield user)"
  unfolding agrees_yield_def
proof (intro allI)
  fix k v s
  show "envelope_yield user k v (lift Locked s) =
        map_option (\<lambda>(b, s'). (b, lift Locked s')) (yield k v s)"
    by (cases "yield k v s")
       (auto simp: envelope_yield_def on_mut_lift agrees_yieldD[OF assms])
qed

lemma notify_lift:
  "agrees m call user \<Longrightarrow>
   notify user k v (lift m s) = map_option (lift m) (notify call k v s)"
  by (simp add: notify_def lift_fields agreesD split: option.splits)

lemma RemoveOldest_lift:
  assumes "agrees m call user"
  shows "RemoveOldest user (lift m s) =
         map_option (\<lambda>(r, s'). (r, lift m s')) (RemoveOldest call s)"
proof (cases s)
  case (Pair lru w)
  show ?thesis
    unfolding Pair RemoveOldest_def lift_def fst_conv snd_conv prod.case Let_def
    by (simp add: lift_pair notify_lift[OF assms] option.map_comp comp_def
        split: option.splits)
qed

lemma Remove_lift:
  assumes "agrees m call user"
  shows "Remove user k (lift m s) =
         map_option (\<lambda>(r, s'). (r, lift m s')) (Remove call k s)"
proof (cases s)
  case (Pair lru w)
  show ?thesis
    unfolding Pair Remove_def lift_def fst_conv snd_conv prod.case Let_def
    by (simp add: lift_pair notify_lift[OF assms] option.map_comp comp_def
        split: option.splits)
qed

lemma Set_lift:
  assumes "agrees m call user"
  shows "Set user k v (lift m s) = map_option (lift m) (Set call k v s)"
proof (cases s)
  case (Pair lru w)
  show ?thesis
    unfolding Pair Set_def lift_def fst_conv snd_conv prod.case Let_def
    by (simp add: lift_pair RemoveOldest_lift[OF assms] option.map_comp comp_def
        case_prod_beta split: option.splits)
qed

lemma Clear_lift:
  assumes "agrees m call user"
  shows "Clear user (lift m s) = map_option (lift m) (Clear call s)"
  unfolding Clear_def
  by (rule for_loop_lift)
     (simp_all add: lift_fields RemoveOldest_lift[OF assms] option.map_comp comp_def
        split_def)

lemma Resize_lift:
  assumes "agrees m call user"
  shows "Resize user n (lift m s) =
         map_option (\<lambda>(r, s'). (r, lift m s')) (Resize call n s)"
proof (cases s)
  case (Pair lru w)
  have "for_loop (\<lambda>(ev, s'). Len (fst s') > n)
          (\<lambda>(ev, s'). map_option (\<lambda>(r, s''). (ev + 1, s'')) (RemoveOldest user s'))
          ((\<lambda>(ev, s'). (ev, lift m s')) (0, (lru\<lparr>size_lru := n\<rparr>, w))) =
        map_option (\<lambda>(ev, s'). (ev, lift m s'))
          (for_loop (\<lambda>(ev, s'). Len (fst s') > n)
             (\<lambda>(ev, s'). map_option (\<lambda>(r, s''). (ev + 1, s'')) (RemoveOldest call s'))
             (0, (lru\<lparr>size_lru := n\<rparr>, w)))"
    by (rule for_loop_lift)
       (auto simp: lift_fields RemoveOldest_lift[OF assms] option.map_comp comp_def
          split_def)
  then show ?thesis
    by (simp add: Pair Resize_def lift_def)
qed

lemma walk_lift:
  assumes "agrees_yield m yield user"
  shows "walk step user start (lift m s) = map_option (lift m) (walk step yield start s)"
proof -
  have "for_loop (\<lambda>(cur, s'). cur \<noteq> None)
          (\<lambda>(cur, s').
             case cur of
               None \<Rightarrow> Some (None, s')
             | Some e \<Rightarrow>
                 (let next = step e (fst s')
                  in case Value (fst s') e of
                       None \<Rightarrow> None
                     | Some it \<Rightarrow>
                         map_option (\<lambda>(continue, s''). (if continue then next else None, s''))
                           (user (key it) (val it) s')))
          ((\<lambda>(cur, s'). (cur, lift m s')) (start, s)) =
        map_option (\<lambda>(cur, s'). (cur, lift m s'))
          (for_loop (\<lambda>(cur, s'). cur \<noteq> None)
          (\<lambda>(cur, s').
             case cur of
               None \<Rightarrow> Some (None, s')
             | Some e \<Rightarrow>
                 (let next = step e (fst s')
                  in case Value (fst s') e of
                       None \<Rightarrow> None
                     | Some it \<Rightarrow>
                         map_option (\<lambda>(continue, s''). (if continue then next else None, s''))
                           (yield (key it) (val it) s')))
          (start, s))"
    by (rule for_loop_lift)
       (auto simp: lift_fields agrees_yieldD[OF assms] option.map_comp comp_def split_def Let_def
          split: option.splits)
  then show ?thesis
    by (simp add: walk_def option.map_comp comp_def split_def)
qed

lemma M_Set_sim:
  assumes "agrees Unlocked call user"
  shows "M_Set user k v (lift Unlocked s) = map_option (lift Unlocked) (Set call k v s)"
  by (cases "Set call k v s")
     (simp_all add: M_Set_def on_mut_lift Set_lift[OF agrees_envelope[OF assms]])

lemma M_Remove_sim:
  assumes "agrees Unlocked call user"
  shows "M_Remove user k (lift Unlocked s) =
         map_option (\<lambda>(r, s'). (r, lift Unlocked s')) (Remove call k s)"
  by (cases "Remove call k s")
     (auto simp: M_Remove_def on_mut_lift Remove_lift[OF agrees_envelope[OF assms]])

lemma M_RemoveOldest_sim:
  assumes "agrees Unlocked call user"
  shows "M_RemoveOldest user (lift Unlocked s) =
         map_option (\<lambda>(r, s'). (r, lift Unlocked s')) (RemoveOldest call s)"
  by (cases "RemoveOldest call s")
     (auto simp: M_RemoveOldest_def on_mut_lift RemoveOldest_lift[OF agrees_envelope[OF assms]])

lemma M_Resize_sim:
  assumes "agrees Unlocked call user"
  shows "M_Resize user n (lift Unlocked s) =
         map_option (\<lambda>(r, s'). (r, lift Unlocked s')) (Resize call n s)"
  by (cases "Resize call n s")
     (auto simp: M_Resize_def on_mut_lift Resize_lift[OF agrees_envelope[OF assms]])

lemma M_Clear_sim:
  assumes "agrees Unlocked call user"
  shows "M_Clear user (lift Unlocked s) = map_option (lift Unlocked) (Clear call s)"
  by (cases "Clear call s")
     (simp_all add: M_Clear_def on_mut_lift Clear_lift[OF agrees_envelope[OF assms]])

lemma M_All_sim:
  assumes "agrees_yield Unlocked yield user"
  shows "M_All user (lift Unlocked s) = map_option (lift Unlocked) (All yield s)"
  by (cases "All yield s")
     (simp_all add: M_All_def on_mut_lift All_def lift_fields
        walk_lift[OF agrees_envelope_yield[OF assms]])

lemma M_Backward_sim:
  assumes "agrees_yield Unlocked yield user"
  shows "M_Backward user (lift Unlocked s) = map_option (lift Unlocked) (Backward yield s)"
  by (cases "Backward yield s")
     (simp_all add: M_Backward_def on_mut_lift Backward_def lift_fields
        walk_lift[OF agrees_envelope_yield[OF assms]])

lemma M_Get_sim:
  "M_Get k (lift Unlocked s) =
     map_option (\<lambda>(r, lru'). (r, lift Unlocked (lru', snd s))) (Get k (fst s))"
  by (cases "Get k (fst s)")
     (auto simp: M_Get_def on_mut_lift lift_fields lift_pair)

lemma M_Pick_sim:
  "M_Pick k (lift Unlocked s) =
     map_option (\<lambda>(r, lru'). (r, lift Unlocked (lru', snd s))) (Pick k (fst s))"
  by (cases "Pick k (fst s)")
     (auto simp: M_Pick_def on_mut_def mut_def lift_def RLock_def RUnlock_def)

lemma M_Len_sim: "M_Len (lift Unlocked s) = Some (Len (fst s), lift Unlocked s)"
  by (simp add: M_Len_def on_mut_def mut_def lift_def RLock_def RUnlock_def)

lemma M_OnEvicted_sim:
  "M_OnEvicted cb (lift Unlocked s) = Some (lift Unlocked (OnEvicted (Some cb) (fst s), snd s))"
  by (simp add: M_OnEvicted_def on_mut_def mut_def lift_def Lock_def Unlock_def)

lemma M_Set_held: "M_Set user k v (lift Locked s) = None"
  by (simp add: M_Set_def on_mut_def mut_def lift_def Lock_def)

lemma envelope_returns:
  assumes "envelope user cb k v ms = Some ms'"
  shows "mut ms = Locked \<and> mut ms' = Locked \<and>
         (\<exists>s1. user cb k v (fst ms, (Unlocked, snd (snd ms))) = Some s1 \<and> mut s1 = Unlocked \<and>
               ms' = (fst s1, (Locked, snd (snd s1))))"
  using assms
  by (auto simp: envelope_def on_mut_def mut_def Lock_def Unlock_def bind_eq_Some_conv
      split: if_splits)

lemma envelope_yield_returns:
  assumes "envelope_yield user k v ms = Some (b, ms')"
  shows "mut ms = Locked \<and> mut ms' = Locked \<and>
         (\<exists>s1. user k v (fst ms, (Unlocked, snd (snd ms))) = Some (b, s1) \<and> mut s1 = Unlocked \<and>
               ms' = (fst s1, (Locked, snd (snd s1))))"
  using assms
  by (auto simp: envelope_yield_def on_mut_def mut_def Lock_def Unlock_def bind_eq_Some_conv
      split: if_splits)

lemma agrees_bump: "agrees Unlocked (c_bump n :: (int, int, 'cb, 'w) invoke) (m_bump n)"
proof (induction n)
  case 0
  show ?case by (simp add: agrees_def)
next
  case (Suc n)
  show ?case
    unfolding agrees_def
  proof (intro allI)
    fix cb :: 'cb and k v :: int and s :: "(int, int, 'cb, 'w) state"
    show "m_bump (Suc n) cb k v (lift Unlocked s) =
          map_option (lift Unlocked) (c_bump (Suc n) cb k v s)"
      by (simp add: M_Set_sim[OF Suc])
  qed
qed

lemma agrees_touch: "agrees_yield Unlocked c_touch m_touch"
  unfolding agrees_yield_def
proof (intro allI)
  fix k v s
  show "m_touch k v (lift Unlocked s) =
        map_option (\<lambda>(b, s'). (b, lift Unlocked s')) (c_touch k v s)"
    by (cases "Get k (fst s)") (auto simp: m_touch_def c_touch_def M_Get_sim)
qed

section \<open>Lookups and removals that find nothing\<close>

text \<open>
  Claim C8. \<^verbatim>\<open>Remove(k)\<close> of a key that is not in the index returns the zero value and
  \<^verbatim>\<open>false\<close>, and \<^verbatim>\<open>RemoveOldest()\<close> of a cache whose list is empty returns the zero key,
  the zero value and \<^verbatim>\<open>false\<close>. Both return the cache and the caller's world as they
  were, whatever the callback's code \<open>call\<close> is, also one that never returns: the callback
  is not called.
\<close>

theorem Remove_absent_RemoveOldest_empty:
  assumes "elem lru k = None" and "items lru' = []"
  shows "Remove call k (lru, w) = Some ((0, False), (lru, w)) \<and>
         RemoveOldest call' (lru', w') = Some ((0, 0, False), (lru', w'))"
  using assms by (simp add: Remove_def RemoveOldest_def Back_def)

theorem Remove_absent_RemoveOldest_empty_witness:
  "elem (New 3 :: (int, int, unit) LRU) 7 = None \<and>
   items (New 3 :: (int, int, unit) LRU) = [] \<and>
   Remove (\<lambda>cb k v s. None) 7 (New 3 :: (int, int, unit) LRU, ()) =
     Some ((0, False), (New 3, ())) \<and>
   RemoveOldest (\<lambda>cb k v s. None) (New 3 :: (int, int, unit) LRU, ()) =
     Some ((0, 0, False), (New 3, ()))"
  using Remove_absent_RemoveOldest_empty
    [of "New 3 :: (int, int, unit) LRU" 7 "New 3" "\<lambda>cb k v s. None" "()"
        "\<lambda>cb k v s. None" "()"]
  by (simp add: New_def)

section \<open>Pick\<close>

text \<open>
  Claim C6. In every state, \<^verbatim>\<open>Pick(k)\<close> returns the value and the flag that \<^verbatim>\<open>Get(k)\<close>
  returns in that state (and does not return where \<^verbatim>\<open>Get\<close> does not), and the cache it
  leaves is the cache it found: index, sequence and so the traversal of \<^verbatim>\<open>All\<close>, length,
  capacity and callback are what they were.
\<close>

theorem Pick_is_Get_without_promotion:
  "Pick k lru = map_option (\<lambda>(r, lru'). (r, lru)) (Get k lru)"
  by (simp add: Pick_def Get_def Let_def Value_MoveToFront split: option.splits)

section \<open>The bijection of index and sequence\<close>

text \<open>
  Claim C4. In every state that a new cache reaches by a sequence of calls of \<^verbatim>\<open>Set\<close>,
  \<^verbatim>\<open>Get\<close>, \<^verbatim>\<open>Pick\<close>, \<^verbatim>\<open>Remove\<close>, \<^verbatim>\<open>RemoveOldest\<close>, \<^verbatim>\<open>Resize\<close> and \<^verbatim>\<open>Clear\<close> (and of
  \<^verbatim>\<open>OnEvicted\<close>, with callbacks that call these operations in turn), the index and the
  sequence are in bijection: the index maps its keys one-to-one onto the elements of the
  sequence, every key of the index leads to an element of the sequence that carries this
  key, every element of the sequence carries a key that the index sends to this element, and
  the index has as many keys as the sequence has elements, which is \<^verbatim>\<open>Len()\<close>.
\<close>

theorem index_sequence_bijection:
  assumes "run (reenter n) ops (New N, w) = Some (lru, w')"
  shows "bij_betw (\<lambda>k. the (elem lru k)) (dom (elem lru)) (set (items lru)) \<and>
         distinct (items lru) \<and>
         (\<forall>k e. elem lru k = Some e \<longrightarrow>
            e \<in> set (items lru) \<and> map_option key (Value lru e) = Some k) \<and>
         (\<forall>e \<in> set (items lru). \<exists>it. Value lru e = Some it \<and> elem lru (key it) = Some e) \<and>
         card (dom (elem lru)) = length (items lru) \<and>
         Len lru = int (card (dom (elem lru)))"
proof -
  have c: "consistent lru"
    using run_consistent[OF preserving_reenter _ assms] by (simp add: consistent_New)
  from consistent_bij[OF c] consistent_card[OF c] c show ?thesis
    by (simp add: consistent_def index_in_sequence_def sequence_in_index_def Len_def)
qed

theorem index_sequence_bijection_witness:
  "\<exists>lru. run (reenter (Suc (Suc 0))) 
          [OpOnEvicted (Some bump), OpSet 1 0, OpSet 2 1, OpGet 1, OpSet 3 2, OpPick 2,
           OpRemove 2, OpSet 4 3, OpSet 2 5, OpResize 2, OpRemoveOldest, OpClear, OpSet 5 5]
        (New 3, ()) = Some (lru, ()) \<and>
     card (dom (elem lru)) = length (items lru) \<and> Len lru = 1"
proof -
  have "\<exists>lru. run (reenter (Suc (Suc 0))) 
          [OpOnEvicted (Some bump), OpSet 1 0, OpSet 2 1, OpGet 1, OpSet 3 2, OpPick 2,
           OpRemove 2, OpSet 4 3, OpSet 2 5, OpResize 2, OpRemoveOldest, OpClear, OpSet 5 5]
        (New 3, ()) = Some (lru, ()) \<and> Len lru = 1"
    by (simp add: op_defs bump_def for_loop.simps)
  then obtain lru where r: "run (reenter (Suc (Suc 0))) 
          [OpOnEvicted (Some bump), OpSet 1 0, OpSet 2 1, OpGet 1, OpSet 3 2, OpPick 2,
           OpRemove 2, OpSet 4 3, OpSet 2 5, OpResize 2, OpRemoveOldest, OpClear, OpSet 5 5]
        (New 3, ()) = Some (lru, ())" and l: "Len lru = 1" by blast
  from index_sequence_bijection[OF r] r l show ?thesis by blast
qed

section \<open>Set of a present key\<close>

text \<open>
  Claim C7. In every consistent state in which the key \<open>k\<close> is in the index, \<^verbatim>\<open>Set(k, v)\<close>
  returns with \<open>k\<close> at the front carrying \<open>v\<close> and with the other entries in their
  order and with their values (\<open>es\<close> is the traversal of \<^verbatim>\<open>All\<close> before the call).
  The length, the capacity and the callback are unchanged. The resulting cache is the same
  for every code \<open>call\<close> of the callback, also one that never returns, and the caller's
  world is returned as it was: no entry is evicted and the callback is not called, whatever
  the capacity is.
\<close>

theorem Set_present_updates_in_place:
  assumes "consistent lru" and "elem lru k = Some e" and "newest_first lru = Some es"
  shows "\<exists>lru'. (\<forall>call. Set call k v (lru, w) = Some (lru', w)) \<and>
           newest_first lru' = Some ((k, v) # filter (\<lambda>x. fst x \<noteq> k) es) \<and>
           Len lru' = Len lru \<and> size_lru lru' = size_lru lru \<and> evicted lru' = evicted lru"
proof -
  from consistent_index[OF assms(1,2)] obtain it where
    it: "e \<in> set (items lru)" "Value lru e = Some it" by blast
  from assms(1,3) have es: "es = entries lru" by (simp add: newest_first_entries)
  have c': "consistent (overwrite e it v lru)" by (rule consistent_overwrite[OF assms(1) it(2)])
  have "\<forall>call. Set call k v (lru, w) = Some (overwrite e it v lru, w)"
    by (simp add: Set_present[OF assms(2) it(2)])
  moreover have "newest_first (overwrite e it v lru) =
      Some ((k, v) # filter (\<lambda>x. fst x \<noteq> k) es)"
    by (simp add: newest_first_entries[OF c'] entries_overwrite[OF assms(1,2) it(2)] es)
  moreover have "Len (overwrite e it v lru) = Len lru"
    using it(1) length_pos_if_in_set[OF it(1)]
    by (simp add: Len_def overwrite_fields items_MoveToFront length_remove1)
  ultimately show ?thesis
    by (intro exI[of _ "overwrite e it v lru"]) (simp add: overwrite_fields)
qed

theorem Set_present_updates_in_place_witness:
  "consistent cache3 \<and> elem cache3 2 = Some 1 \<and>
   newest_first cache3 = Some [(3, 2), (2, 1), (1, 0)] \<and>
   (\<exists>lru'. Set (\<lambda>cb k v s. None) 2 7 (cache3, ()) = Some (lru', ()) \<and>
      newest_first lru' = Some [(2, 7), (3, 2), (1, 0)] \<and> Len lru' = 3)"
proof -
  have e: "elem cache3 2 = Some 1" by (simp add: cache3_def)
  have l: "Len cache3 = 3" by (simp add: cache3_def Len_def)
  from Set_present_updates_in_place[OF consistent_cache3 e entries_cache3, of 7 "()"] l
  show ?thesis using consistent_cache3 e entries_cache3 by auto
qed

section \<open>Recency\<close>

text \<open>
  Claim C3, amended. Let \<^verbatim>\<open>Set(k, v)\<close> return in a consistent state. It calls the eviction
  callback at most once; \<open>observed\<close> records that call, if there is one, with the cache the
  callback was called in and the cache it left. If the call left the cache as it found it
  (or there was no call), the full traversal of \<^verbatim>\<open>All\<close> starts with \<open>k\<close> and its new value.
  Nothing is asked of what the callback's code would do in any other call or state. After a
  \<^verbatim>\<open>Get(k)\<close> that finds the key in a consistent state, the traversal starts with \<open>k\<close> and
  the value returned; \<^verbatim>\<open>Get\<close> calls no callback, so there is no such proviso.
\<close>

theorem recency_after_Set_or_Get:
  assumes "consistent lru" and "Set call k v (lru, w) = Some (lru1, w1)"
    and "consistent lruG" and "Get kG lruG = Some ((vG, True), lruG')"
  shows "(\<exists>tr. Set (observed call) k v (lru, (w, [])) = Some (lru1, (w1, tr)) \<and>
               length tr \<le> 1 \<and>
               ((\<forall>(k', v', c, c') \<in> set tr. c' = c) \<longrightarrow>
                (\<exists>rest. newest_first lru1 = Some ((k, v) # rest)))) \<and>
         (\<exists>rest. newest_first lruG' = Some ((kG, vG) # rest))"
proof
  show "\<exists>tr. Set (observed call) k v (lru, (w, [])) = Some (lru1, (w1, tr)) \<and>
               length tr \<le> 1 \<and>
               ((\<forall>(k', v', c, c') \<in> set tr. c' = c) \<longrightarrow>
                (\<exists>rest. newest_first lru1 = Some ((k, v) # rest)))"
  proof (cases "elem lru k")
    case (Some e)
    from consistent_index[OF assms(1) Some] obtain it where it: "Value lru e = Some it" by blast
    from assms(2) have l: "lru1 = overwrite e it v lru" and w: "w1 = w"
      by (simp_all add: Set_present[OF Some it])
    from l consistent_overwrite[OF assms(1) it] entries_overwrite[OF assms(1) Some it]
    have "\<exists>rest. newest_first lru1 = Some ((k, v) # rest)" by (simp add: newest_first_entries)
    with l w show ?thesis by (simp add: Set_present[OF Some it])
  next
    case None
    let ?i = "insert_front k v lru"
    have ci: "consistent ?i" by (rule consistent_insert_front[OF assms(1) None])
    show ?thesis
    proof (cases "size_lru lru > 0 \<and> Len ?i > size_lru lru")
      case False
      with assms(2) None have l: "lru1 = ?i" and w: "w1 = w" by (auto simp: Set_absent)
      from l ci entries_insert_front[OF assms(1)]
      have "\<exists>rest. newest_first lru1 = Some ((k, v) # rest)" by (simp add: newest_first_entries)
      moreover from False have
        "Set (observed call) k v (lru, (w, [])) = Some (?i, (w, []))"
        by (auto simp: Set_absent[OF None])
      ultimately show ?thesis using l w by simp
    next
      case True
      then have ne: "items lru \<noteq> []" by (auto simp: Len_def insert_front_fields)
      then have ne': "items ?i \<noteq> []" and mem: "last (items ?i) \<in> set (items ?i)"
        by (simp_all add: insert_front_fields)
      from consistent_sequence[OF ci mem] obtain it where
        it: "Value ?i (last (items ?i)) = Some it" by blast
      let ?d = "detach (last (items ?i)) it ?i"
      from assms(2) None True obtain x where
        "RemoveOldest call (?i, w) = Some (x, (lru1, w1))" by (auto simp: Set_absent)
      then have n: "notify call (key it) (val it) (?d, w) = Some (lru1, w1)"
        by (auto simp: RemoveOldest_nonempty[OF ne' it])
      have so: "Set (observed call) k v (lru, (w, [])) =
          map_option snd (map_option (Pair (key it, val it, True))
             (notify (observed call) (key it) (val it) (?d, (w, []))))"
        using True by (simp add: Set_absent[OF None] RemoveOldest_nonempty[OF ne' it])
      have cd: "consistent ?d" by (rule consistent_detach[OF ci mem it])
      have ed: "entries ?d = (k, v) # butlast (entries lru)"
      proof -
        from ne have "entries lru \<noteq> []" by (simp add: entries_def)
        then show ?thesis
          by (simp add: entries_detach_last[OF ci ne'] entries_insert_front[OF assms(1)])
      qed
      show ?thesis
      proof (cases "evicted ?d")
        case None
        with n have "lru1 = ?d" "w1 = w" by (simp_all add: notify_def)
        with cd ed so None show ?thesis by (simp add: notify_observed newest_first_entries)
      next
        case (Some cb)
        with n have c: "call cb (key it) (val it) (?d, w) = Some (lru1, w1)"
          by (simp add: notify_def)
        from so Some c have
          "Set (observed call) k v (lru, (w, [])) =
             Some (lru1, (w1, [(key it, val it, ?d, lru1)]))"
          by (simp add: notify_observed)
        moreover have "lru1 = ?d \<Longrightarrow> \<exists>rest. newest_first lru1 = Some ((k, v) # rest)"
          using cd ed by (simp add: newest_first_entries)
        ultimately show ?thesis by simp
      qed
    qed
  qed
next
  from assms(4) obtain e it where
    e: "elem lruG kG = Some e" and it: "Value lruG e = Some it"
    and r: "vG = val it" "lruG' = MoveToFront e lruG"
    by (auto simp: Get_def Let_def Value_MoveToFront split: option.splits)
  from consistent_MoveToFront[OF assms(3)] entries_MoveToFront[OF assms(3) e it] r
  show "\<exists>rest. newest_first lruG' = Some ((kG, vG) # rest)"
    by (simp add: newest_first_entries)
qed

text \<open>
  The claim as stated, for every cache state, fails where the callback re-enters the cache:
  in the full cache \<open>cache3\<close>, \<^verbatim>\<open>Set(4, 3)\<close> evicts key 1, the callback \<open>bump\<close> sets
  key 1 again (which evicts key 2), and when \<^verbatim>\<open>Set(4, 3)\<close> returns the traversal starts
  with key 1, not with key 4.
\<close>

theorem recency_after_Set_counterexample:
  "consistent cache3 \<and>
   Option.bind (Set (reenter (Suc (Suc 0))) 4 3 (cache3, ()))
     (\<lambda>s. newest_first (fst s)) = Some [(1, 999), (4, 3), (3, 2)]"
  using consistent_cache3
  by (simp add: op_defs bump_def cache3_def walk_defs)

text \<open>
  An instance with the same re-entering callback \<open>bump\<close>: in \<open>cache3\<close> after \<^verbatim>\<open>Get(1)\<close>,
  whose order is 1, 3, 2, \<^verbatim>\<open>Set(4, 3)\<close> evicts key 2; the callback is called once, for key 2,
  and leaves the cache alone, and the traversal starts with key 4.
\<close>

theorem recency_after_Set_or_Get_witness:
  "Get 1 cache3 = Some ((0, True), MoveToFront 0 cache3) \<and>
   consistent (MoveToFront 0 cache3) \<and>
   Set (reenter (Suc (Suc 0))) 4 3 (MoveToFront 0 cache3, ()) =
     Some (detach 1 \<lparr>key = 2, val = 1\<rparr> (insert_front 4 3 (MoveToFront 0 cache3)), ()) \<and>
   Get 2 cache3 = Some ((1, True), MoveToFront 1 cache3) \<and>
   Set (observed (reenter (Suc (Suc 0)))) 4 3 (MoveToFront 0 cache3, ((), [])) =
     Some (detach 1 \<lparr>key = 2, val = 1\<rparr> (insert_front 4 3 (MoveToFront 0 cache3)),
           ((), [(2, 1, detach 1 \<lparr>key = 2, val = 1\<rparr> (insert_front 4 3 (MoveToFront 0 cache3)),
                        detach 1 \<lparr>key = 2, val = 1\<rparr> (insert_front 4 3 (MoveToFront 0 cache3)))])) \<and>
   (\<exists>rest. newest_first (detach 1 \<lparr>key = 2, val = 1\<rparr> (insert_front 4 3 (MoveToFront 0 cache3))) =
      Some ((4, 3) # rest)) \<and>
   (\<exists>rest. newest_first (MoveToFront 1 cache3) = Some ((2, 1) # rest)) \<and>
   newest_first (detach 1 \<lparr>key = 2, val = 1\<rparr> (insert_front 4 3 (MoveToFront 0 cache3))) =
     Some [(4, 3), (1, 0), (3, 2)]"
proof -
  let ?d = "detach 1 \<lparr>key = 2, val = 1\<rparr> (insert_front 4 3 (MoveToFront 0 cache3))"
  have g1: "Get 1 cache3 = Some ((0, True), MoveToFront 0 cache3)"
    by (simp add: Get_def cache3_def MoveToFront_def)
  have n: "newest_first ?d = Some [(4, 3), (1, 0), (3, 2)]"
    by (simp add: op_defs cache3_def detach_def insert_front_def walk_defs)
  have c: "consistent (MoveToFront 0 cache3)"
    by (rule consistent_MoveToFront[OF consistent_cache3])
  have s: "Set (reenter (Suc (Suc 0))) 4 3 (MoveToFront 0 cache3, ()) = Some (?d, ())"
    by (simp add: op_defs cache3_def detach_def insert_front_def bump_def)
  have ob: "Set (observed (reenter (Suc (Suc 0)))) 4 3 (MoveToFront 0 cache3, ((), [])) =
     Some (?d, ((), [(2, 1, ?d, ?d)]))"
    by (simp add: op_defs cache3_def detach_def insert_front_def bump_def observed_def)
  have g: "Get 2 cache3 = Some ((1, True), MoveToFront 1 cache3)"
    by (simp add: Get_def cache3_def MoveToFront_def)
  from recency_after_Set_or_Get[OF c s consistent_cache3 g] c s g ob g1 n
  show ?thesis by simp
qed

section \<open>Clear\<close>

text \<open>
  Claim C5, amended. Let a consistent cache hold the entries \<open>es\<close>, oldest first (the
  traversal of \<^verbatim>\<open>Backward\<close>), and let its callback's code return whenever it is called and
  leave the cache as it finds it. Then \<^verbatim>\<open>Clear()\<close> returns, the log of the callback's calls
  is \<open>es\<close> (one call for each entry, oldest first, with the entry's key and value), and
  \<^verbatim>\<open>Len()\<close> is 0 afterwards.
\<close>

theorem Clear_notifies_oldest_first:
  assumes "consistent lru" and "evicted lru = Some cb"
    and quiet: "\<And>k v c w. \<exists>w'. call cb k v (c, w) = Some (c, w')"
    and "oldest_first lru = Some es"
  shows "\<exists>lru' w' tr. Clear (logged call) (lru, (w, [])) = Some (lru', (w', tr)) \<and>
           map (\<lambda>(k, v, c). (k, v)) tr = es \<and> Len lru' = 0"
proof -
  from assms(1,4) have es: "es = rev (entries lru)" by (simp add: oldest_first_entries)
  from Clear_logged_quiet[of call cb, OF quiet assms(1,2), of w "[]"] es
  show ?thesis by (auto simp: Len_def)
qed

theorem Clear_notifies_oldest_first_witness:
  "consistent cache3 \<and> evicted cache3 = Some bump \<and>
   oldest_first cache3 = Some [(1, 0), (2, 1), (3, 2)] \<and>
   (\<exists>lru' tr. Clear (logged tally) (cache3, (0, [])) = Some (lru', (3, tr)) \<and>
      map (\<lambda>(k, v, c). (k, v)) tr = [(1, 0), (2, 1), (3, 2)] \<and> Len lru' = 0)"
proof -
  have e: "evicted cache3 = Some bump" by (simp add: cache3_def)
  have b: "oldest_first cache3 = Some [(1, 0), (2, 1), (3, 2)]"
    by (simp add: oldest_first_entries[OF consistent_cache3]) (simp add: entries_def cache3_def)
  have q: "\<exists>w'. tally bump k v (c, w) = Some (c, w')"
    for k v :: int and c :: "(int, int, (int, int) callback) LRU" and w :: int
    by (simp add: tally_def)
  have r: "\<exists>lru' tr. Clear (logged tally) (cache3, (0, [])) = Some (lru', (3, tr))"
    by (simp add: op_defs cache3_def for_loop.simps logged_def tally_def)
  from Clear_notifies_oldest_first[where call = tally and w = 0, OF consistent_cache3 e q b] r
  show ?thesis using consistent_cache3 e b by force
qed

text \<open>
  The claim as stated, for every cache and callback, fails where the callback re-enters the
  cache: \<open>cache3\<close> holds three entries, and \<^verbatim>\<open>Clear()\<close> calls its callback \<open>bump\<close> four
  times, the fourth time for the entry that \<open>bump\<close> set when key 1 was evicted.
\<close>

theorem Clear_notifies_counterexample:
  "consistent cache3 \<and> evicted cache3 = Some bump \<and>
   oldest_first cache3 = Some [(1, 0), (2, 1), (3, 2)] \<and>
   map_option (\<lambda>(lru', (w', tr)). (map (\<lambda>(k, v, c). (k, v)) tr, Len lru'))
     (Clear (logged (reenter (Suc 0))) (cache3, ((), []))) =
   Some ([(1, 0), (2, 1), (3, 2), (1, 999)], 0)"
  using consistent_cache3
  by (simp add: op_defs cache3_def logged_def bump_def walk_defs)

section \<open>The state a callback sees\<close>

text \<open>
  Claim C9. Let any operation of the engine (\<^verbatim>\<open>Remove\<close>, \<^verbatim>\<open>RemoveOldest\<close>, \<^verbatim>\<open>Set\<close> with its
  eviction, \<^verbatim>\<open>Resize\<close>, \<^verbatim>\<open>Clear\<close>) return, and let \<open>(k, v, c)\<close> be a record of the log: the
  operation called the callback for key \<open>k\<close> and value \<open>v\<close> when the cache was \<open>c\<close>. Then
  \<open>k\<close> is not in the index of \<open>c\<close>, and \<^verbatim>\<open>Get(k)\<close>, \<^verbatim>\<open>Pick(k)\<close> and \<^verbatim>\<open>Remove(k)\<close> in \<open>c\<close>
  return the zero value and \<^verbatim>\<open>false\<close> and change nothing. If moreover the cache was
  consistent before the operation and the callback's code keeps caches consistent, then
  \<open>c\<close> is consistent and no element of its sequence carries \<open>k\<close>: the entry has left
  both structures.
\<close>

theorem callback_sees_detached_entry:
  assumes "exec (logged call) x (lru, (w, [])) = Some (lru', (w', tr))"
    and "(k, v, c) \<in> set tr"
  shows "elem c k = None \<and> Get k c = Some ((0, False), c) \<and> Pick k c = Some ((0, False), c) \<and>
         Remove call' k (c, u) = Some ((0, False), (c, u)) \<and>
         (consistent lru \<and> preserving call \<longrightarrow>
            consistent c \<and> (\<forall>e \<in> set (items c). map_option key (Value c e) \<noteq> Some k))"
proof -
  from exec_undisc[OF assms(1)] assms(2) have e: "elem c k = None"
    by (auto simp: log_ok_def)
  have "consistent c \<and> (\<forall>e \<in> set (items c). map_option key (Value c e) \<noteq> Some k)"
    if "consistent lru" "preserving call"
  proof -
    from exec_det[OF that(2) assms(1)] that(1)
    have "log_ok (\<lambda>k c. consistent c \<and> detached k c) tr" by (simp add: log_ok_def)
    with assms(2) have "consistent c \<and> detached k c"
      unfolding log_ok_def by fastforce
    then show ?thesis by (simp add: detached_def)
  qed
  with e show ?thesis by (simp add: Get_def Pick_def Remove_def)
qed

theorem callback_sees_detached_entry_witness:
  "exec (logged tally) (OpSet 4 3) (cache3, (0, [])) =
     Some (detach 0 \<lparr>key = 1, val = 0\<rparr> (insert_front 4 3 cache3),
           (0, [(1, 0, detach 0 \<lparr>key = 1, val = 0\<rparr> (insert_front 4 3 cache3))])) \<and>
   consistent cache3 \<and> preserving (tally :: (int, int, (int, int) callback, int) invoke) \<and>
   Get 1 (detach 0 \<lparr>key = 1, val = 0\<rparr> (insert_front 4 3 cache3)) =
     Some ((0, False), detach 0 \<lparr>key = 1, val = 0\<rparr> (insert_front 4 3 cache3)) \<and>
   Pick 1 (detach 0 \<lparr>key = 1, val = 0\<rparr> (insert_front 4 3 cache3)) =
     Some ((0, False), detach 0 \<lparr>key = 1, val = 0\<rparr> (insert_front 4 3 cache3)) \<and>
   Remove tally 1 (detach 0 \<lparr>key = 1, val = 0\<rparr> (insert_front 4 3 cache3), 0) =
     Some ((0, False), (detach 0 \<lparr>key = 1, val = 0\<rparr> (insert_front 4 3 cache3), 0)) \<and>
   consistent (detach 0 \<lparr>key = 1, val = 0\<rparr> (insert_front 4 3 cache3))"
proof -
  let ?d = "detach 0 \<lparr>key = 1, val = 0\<rparr> (insert_front 4 3 cache3)"
  have x: "exec (logged tally) (OpSet 4 3) (cache3, (0, [])) = Some (?d, (0, [(1, 0, ?d)]))"
    by (simp add: op_defs cache3_def detach_def insert_front_def logged_def tally_def)
  have m: "(1, 0, ?d) \<in> set [(1, 0, ?d)]" by simp
  have p: "preserving (tally :: (int, int, (int, int) callback, int) invoke)"
    by (rule preserving_tally)
  from callback_sees_detached_entry[OF x m, of tally 0] consistent_cache3 p x
  show ?thesis by simp
qed

section \<open>The capacity bound\<close>

text \<open>
  Claim C2. For a capacity \<open>N > 0\<close> and every list of \<^verbatim>\<open>Set\<close> calls on \<^verbatim>\<open>New(N)\<close>, the calls
  return and \<^verbatim>\<open>Len()\<close> is at most \<open>N\<close> afterwards (after every call: every prefix of a list
  of calls is a list of calls). In the state reached, with traversal \<open>es\<close>, a further
  \<^verbatim>\<open>Set(k, v)\<close> of a key that is not in the index, when the cache is full, returns with
  \<open>N\<close> entries again: the new entry in front of \<open>es\<close> without its last, oldest, entry, so
  exactly one entry has been evicted, from the back.
\<close>

theorem Set_keeps_capacity:
  assumes "0 < N"
  shows "\<exists>lru es. run call (map (\<lambda>(k, v). OpSet k v) kvs) (New N, w) = Some (lru, w) \<and>
           Len lru \<le> N \<and> newest_first lru = Some es \<and>
           (\<forall>k v. elem lru k = None \<and> Len lru = N \<longrightarrow>
              (\<exists>lru'. Set call k v (lru, w) = Some (lru', w) \<and> Len lru' = N \<and>
                 newest_first lru' = Some ((k, v) # butlast es)))"
proof -
  from assms have "bounded N (New N :: ('a, 'b, ('a, 'b) callback) LRU)"
    by (simp add: bounded_def consistent_New) (simp add: New_def Len_def)
  from run_Sets_bounded[OF assms this, of call kvs w] obtain lru where
    l: "run call (map (\<lambda>(k, v). OpSet k v) kvs) (New N, w) = Some (lru, w)" "bounded N lru"
    by blast
  have "\<exists>lru'. Set call k v (lru, w) = Some (lru', w) \<and> Len lru' = N \<and>
          newest_first lru' = Some ((k, v) # butlast (entries lru))"
    if "elem lru k = None \<and> Len lru = N" for k v
  proof -
    from Set_bounded[OF assms l(2), of call k v w] that obtain lru' where
      "Set call k v (lru, w) = Some (lru', w)" "bounded N lru'" "Len lru' = N"
      "entries lru' = (k, v) # butlast (entries lru)" by blast
    then show ?thesis by (auto simp: bounded_def newest_first_entries)
  qed
  with l show ?thesis by (auto simp: bounded_def newest_first_entries)
qed

theorem Set_keeps_capacity_witness:
  "(0::int) < 2 \<and>
   (\<exists>lru. run (\<lambda>cb k v s. None) (map (\<lambda>(k, v). OpSet k v) [(1, 10), (2, 20), (3, 30)])
            (New 2, ()) = Some (lru, ()) \<and>
      Len lru \<le> 2 \<and> newest_first lru = Some [(3 :: int, 30 :: int), (2, 20)])"
proof -
  have z: "(0::int) < 2" by simp
  have "\<exists>lru. run (\<lambda>cb k v s. None) (map (\<lambda>(k, v). OpSet k v) [(1, 10), (2, 20), (3, 30)])
            (New 2, ()) = Some (lru, ()) \<and>
      newest_first lru = Some [(3 :: int, 30 :: int), (2, 20)]"
    by (simp add: op_defs walk_defs)
  with Set_keeps_capacity[OF z, of "\<lambda>cb k v s. None" "[(1, 10), (2, 20), (3, 30)]" "()"]
  show ?thesis by auto
qed

section \<open>Resize to a size that is not positive\<close>

text \<open>
  Claim C1 says that \<^verbatim>\<open>Resize(n)\<close> with \<open>n \<le> 0\<close> evicts nothing and returns 0. The code
  runs \<^verbatim>\<open>for lru.Len() > size\<close> without the test \<^verbatim>\<open>size > 0\<close> that \<^verbatim>\<open>Set\<close> makes: on the
  cache that holds keys 1 and 2, \<^verbatim>\<open>Resize(0)\<close> returns 2 and leaves the cache empty, and
  \<^verbatim>\<open>Resize(-1)\<close> does not return (the length of a list is never below a negative size).
\<close>

theorem Resize_zero_evicts_all_negative_never_returns:
  "Option.bind (run call [OpSet (1::int) (10::int), OpSet 2 20] (New 3, ()))
     (\<lambda>s. map_option (\<lambda>(n, s'). (n, newest_first (fst s'))) (Resize call 0 s)) =
     Some (2, Some []) \<and>
   Option.bind (run call [OpSet (1::int) (10::int), OpSet 2 20] (New 3, ()))
     (Resize call (- 1)) = None"
  by (simp add: Resize_negative) (simp add: op_defs walk_defs)

section \<open>The wrapper hands the lock over to the caller's code\<close>

text \<open>
  Claim C10, for one thread. Let the caller's callback and the caller's \<^verbatim>\<open>yield\<close>, run on
  the wrapper while the lock is free, do what \<open>call\<close> and \<open>yield\<close> do on the engine, and
  return with the lock free. Then every operation of the wrapper that can reach the caller's
  code (\<^verbatim>\<open>Set\<close>, \<^verbatim>\<open>Remove\<close>, \<^verbatim>\<open>RemoveOldest\<close>, \<^verbatim>\<open>Resize\<close>, \<^verbatim>\<open>Clear\<close> through the eviction
  callback, \<^verbatim>\<open>All\<close> and \<^verbatim>\<open>Backward\<close> through \<^verbatim>\<open>yield\<close>), started with the lock free, returns
  exactly when the engine's operation returns, with the same result, cache and world, and with
  the lock free. The hypothesis leaves open what the caller's code does while the lock is
  held (it may block, as code that re-enters the wrapper does), so the wrapper runs it only
  with the lock released; lemma \<open>agrees_bump\<close> shows that callbacks that re-enter the
  wrapper satisfy the hypothesis. The next two parts say it directly: whenever the closure
  around a callback, or around \<^verbatim>\<open>yield\<close>, returns, it was called with the lock held, it ran the
  caller's code with the lock free, that code returned with the lock free, and the closure
  holds the lock when it returns. The last part is why the lock must be released: the lock
  is not reentrant, and \<^verbatim>\<open>Set\<close> of the wrapper, called while the lock is held, never returns.
\<close>

theorem wrapper_releases_lock_around_caller_code:
  assumes "agrees Unlocked call user" and "agrees_yield Unlocked yield yuser"
  shows "M_Set user k v (lift Unlocked s) = map_option (lift Unlocked) (Set call k v s) \<and>
         M_Remove user k (lift Unlocked s) =
           map_option (\<lambda>(r, s'). (r, lift Unlocked s')) (Remove call k s) \<and>
         M_RemoveOldest user (lift Unlocked s) =
           map_option (\<lambda>(r, s'). (r, lift Unlocked s')) (RemoveOldest call s) \<and>
         M_Resize user n (lift Unlocked s) =
           map_option (\<lambda>(r, s'). (r, lift Unlocked s')) (Resize call n s) \<and>
         M_Clear user (lift Unlocked s) = map_option (lift Unlocked) (Clear call s) \<and>
         M_All yuser (lift Unlocked s) = map_option (lift Unlocked) (All yield s) \<and>
         M_Backward yuser (lift Unlocked s) = map_option (lift Unlocked) (Backward yield s) \<and>
         (\<forall>cb k v ms ms'. envelope user cb k v ms = Some ms' \<longrightarrow>
            mut ms = Locked \<and> mut ms' = Locked \<and>
            (\<exists>s1. user cb k v (fst ms, (Unlocked, snd (snd ms))) = Some s1 \<and>
                  mut s1 = Unlocked \<and> ms' = (fst s1, (Locked, snd (snd s1))))) \<and>
         (\<forall>k v ms b ms'. envelope_yield yuser k v ms = Some (b, ms') \<longrightarrow>
            mut ms = Locked \<and> mut ms' = Locked \<and>
            (\<exists>s1. yuser k v (fst ms, (Unlocked, snd (snd ms))) = Some (b, s1) \<and>
                  mut s1 = Unlocked \<and> ms' = (fst s1, (Locked, snd (snd s1))))) \<and>
         M_Set user k v (lift Locked s) = None"
  using M_Set_held[of user k v s] M_Set_sim[OF assms(1)] M_Remove_sim[OF assms(1)] M_RemoveOldest_sim[OF assms(1)]
    M_Resize_sim[OF assms(1)] M_Clear_sim[OF assms(1)] M_All_sim[OF assms(2)]
    M_Backward_sim[OF assms(2)] envelope_returns[of user] envelope_yield_returns[of yuser]
  by blast

theorem wrapper_releases_lock_around_caller_code_witness:
  "agrees Unlocked (c_bump (Suc (Suc 0)) :: (int, int, (int, int) callback, unit) invoke)
     (m_bump (Suc (Suc 0))) \<and>
   agrees_yield Unlocked (c_touch :: (int, int, (int, int) callback, unit) yield) m_touch \<and>
   map_option (\<lambda>s. (mut s, newest_first (fst s)))
     (M_Set (m_bump (Suc (Suc 0))) 4 3 (cache3, (Unlocked, ()))) =
     Some (Unlocked, Some [(1, 999), (4, 3), (3, 2)]) \<and>
   M_Set (m_bump (Suc (Suc 0))) 4 3 (cache3, (Unlocked, ())) =
     map_option (lift Unlocked) (Set (c_bump (Suc (Suc 0))) 4 3 (cache3, ())) \<and>
   map_option (\<lambda>s. (mut s, newest_first (fst s))) (M_All m_touch (cache3, (Unlocked, ()))) =
     Some (Unlocked, Some [(1, 0), (2, 1), (3, 2)]) \<and>
   M_All m_touch (cache3, (Unlocked, ())) =
     map_option (lift Unlocked) (All c_touch (cache3, ())) \<and>
   map_option (\<lambda>s. (mut s, newest_first (fst s)))
     (Option.bind (M_OnEvicted bump (NewWithMutex 3 ()))
        (\<lambda>s. Option.bind (M_Set (m_bump (Suc (Suc 0))) 1 0 s)
        (\<lambda>s. Option.bind (M_Set (m_bump (Suc (Suc 0))) 2 1 s)
        (\<lambda>s. Option.bind (M_Set (m_bump (Suc (Suc 0))) 3 2 s)
        (\<lambda>s. M_Set (m_bump (Suc (Suc 0))) 4 3 s))))) =
     Some (Unlocked, Some [(1, 999), (4, 3), (3, 2)])"
proof -
  have a: "agrees Unlocked (c_bump (Suc (Suc 0)) :: (int, int, (int, int) callback, unit) invoke)
     (m_bump (Suc (Suc 0)))"
    by (rule agrees_bump)
  have y: "agrees_yield Unlocked (c_touch :: (int, int, (int, int) callback, unit) yield) m_touch"
    by (rule agrees_touch)
  have l: "lift Unlocked (cache3, ()) = (cache3, (Unlocked, ()))" by (simp add: lift_def)
  have s: "map_option (\<lambda>s. (mut s, newest_first (fst s)))
     (M_Set (m_bump (Suc (Suc 0))) 4 3 (cache3, (Unlocked, ()))) =
     Some (Unlocked, Some [(1, 999), (4, 3), (3, 2)])"
    by (simp add: M_Set_def envelope_def on_mut_def mut_def Lock_def Unlock_def op_defs
        cache3_def walk_defs)
  have t: "map_option (\<lambda>s. (mut s, newest_first (fst s))) (M_All m_touch (cache3, (Unlocked, ()))) =
     Some (Unlocked, Some [(1, 0), (2, 1), (3, 2)])"
    by (simp add: M_All_def M_Get_def m_touch_def envelope_yield_def on_mut_def mut_def Lock_def
        Unlock_def op_defs cache3_def walk_defs)
  have n: "map_option (\<lambda>s. (mut s, newest_first (fst s)))
     (Option.bind (M_OnEvicted bump (NewWithMutex 3 ()))
        (\<lambda>s. Option.bind (M_Set (m_bump (Suc (Suc 0))) 1 0 s)
        (\<lambda>s. Option.bind (M_Set (m_bump (Suc (Suc 0))) 2 1 s)
        (\<lambda>s. Option.bind (M_Set (m_bump (Suc (Suc 0))) 3 2 s)
        (\<lambda>s. M_Set (m_bump (Suc (Suc 0))) 4 3 s))))) =
     Some (Unlocked, Some [(1, 999), (4, 3), (3, 2)])"
    by (simp add: M_Set_def M_OnEvicted_def NewWithMutex_def envelope_def on_mut_def mut_def
        Lock_def Unlock_def op_defs walk_defs)
  from wrapper_releases_lock_around_caller_code[OF a y, of 4 3 "(cache3, ())"] a y s t l n
  show ?thesis by simp
qed

end
